theory Spec2Isabelle
  imports Main "HOL-Library.Product_Lexorder"
begin

section \<open>Card utilities (src/app/page.tsx, lines 13--36)\<close>

text \<open>
  A card is the object \<^verbatim>\<open>{ r: number; s: string }\<close>. Ranks are JavaScript numbers that only
  ever hold integers, suits are one-character strings. Strings are lists of characters.
\<close>

record Card =
  r :: int
  s :: string

definition rankChars :: "string list" where
  "rankChars = map (\<lambda>ch. [ch]) ''23456789TJQKA''"

definition suitChars :: "string list" where
  "suitChars = [''s'', ''h'', ''d'', ''c'']"

text \<open>The thirteen one-character strings \<^verbatim>\<open>"2"\<close>, ..., \<^verbatim>\<open>"9"\<close>, \<^verbatim>\<open>"T"\<close>, \<^verbatim>\<open>"J"\<close>, \<^verbatim>\<open>"Q"\<close>, \<^verbatim>\<open>"K"\<close>, \<^verbatim>\<open>"A"\<close>
  of \<^verbatim>\<open>rankChars\<close> are written as the characters of one string.\<close>

text \<open>\<^verbatim>\<open>for (let r = 2; r <= 14; r++) for (const s of suitChars) deck.push({ r, s })\<close>\<close>

definition makeDeck :: "Card list" where
  "makeDeck = concat (map (\<lambda>rk. map (\<lambda>st. \<lparr>r = rk, s = st\<rparr>) suitChars) [2..14])"

text \<open>
  \<^verbatim>\<open>rankChars[c.r-2] + c.s\<close>: an index outside the array reads \<^verbatim>\<open>undefined\<close>, which string
  concatenation renders as the text "undefined".
\<close>

definition cardToStr :: "Card \<Rightarrow> string" where
  "cardToStr c =
     (if 2 \<le> r c \<and> r c \<le> 14 then rankChars ! nat (r c - 2) else ''undefined'') @ s c"

subsection \<open>String primitives used by the parser\<close>

text \<open>
  A character of a text stands for the UTF-16 code unit of the same number, so the texts of
  the model are those over U+0000..U+00FF. Among these code units, \<^verbatim>\<open>trim()\<close> and the pattern
  \<^verbatim>\<open>\s\<close> treat seven as white space: tab, line feed, vertical tab, form feed, carriage
  return, space and the no-break space U+00A0.
\<close>

definition isSpace :: "char \<Rightarrow> bool" where
  "isSpace ch = (ch \<in> set [CHR 0x09, CHR 0x0A, CHR 0x0B, CHR 0x0C, CHR 0x0D, CHR '' '', CHR 0xA0])"

definition trim :: "string \<Rightarrow> string" where
  "trim t = rev (dropWhile isSpace (rev (dropWhile isSpace t)))"

text \<open>
  The case mappings are modelled on ASCII text only, where they exchange \<^verbatim>\<open>a\<close>..\<^verbatim>\<open>z\<close> and
  \<^verbatim>\<open>A\<close>..\<^verbatim>\<open>Z\<close> and keep every other character. Beyond ASCII the upper-case form of a
  character can be longer than one character or lie beyond U+00FF; there the model gives no
  answer: \<^verbatim>\<open>toUpperCase\<close> and \<^verbatim>\<open>toLowerCase\<close> return \<open>None\<close> on a text that holds a character
  outside ASCII, and so does every function that calls them on such a text.
\<close>

definition isAscii :: "string \<Rightarrow> bool" where
  "isAscii t = list_all (\<lambda>ch. (of_char ch :: nat) < 128) t"

definition lowerChars :: string where
  "lowerChars = ''abcdefghijklmnopqrstuvwxyz''"

definition upperChars :: string where
  "upperChars = ''ABCDEFGHIJKLMNOPQRSTUVWXYZ''"

definition upperChar :: "char \<Rightarrow> char" where
  "upperChar ch = (case map_of (zip lowerChars upperChars) ch of Some u \<Rightarrow> u | None \<Rightarrow> ch)"

definition lowerChar :: "char \<Rightarrow> char" where
  "lowerChar ch = (case map_of (zip upperChars lowerChars) ch of Some l \<Rightarrow> l | None \<Rightarrow> ch)"

definition toUpperCase :: "string \<Rightarrow> string option" where
  "toUpperCase t = (if isAscii t then Some (map upperChar t) else None)"

definition toLowerCase :: "string \<Rightarrow> string option" where
  "toLowerCase t = (if isAscii t then Some (map lowerChar t) else None)"

text \<open>\<^verbatim>\<open>Array.prototype.indexOf\<close>: the first index holding the value, or \<open>-1\<close>.\<close>

fun indexOf :: "'a list \<Rightarrow> 'a \<Rightarrow> int" where
  "indexOf [] x = - 1"
| "indexOf (y # ys) x =
     (if y = x then 0 else (let i = indexOf ys x in if i = - 1 then - 1 else i + 1))"

text \<open>
  \<^verbatim>\<open>strToCard\<close>. The result \<open>Some None\<close> is \<^verbatim>\<open>null\<close>, \<open>Some (Some c)\<close> is the card \<open>c\<close>, and
  \<open>None\<close> says that the text, once trimmed, holds a character outside ASCII, for which the
  case mapping is not modelled.
\<close>

definition strToCard :: "string \<Rightarrow> Card option option" where
  "strToCard t =
     (case toUpperCase (trim t) of
        None \<Rightarrow> None
      | Some v \<Rightarrow>
          if v = [] \<or> length v < 2 then Some None
          else
            (case toLowerCase [v ! (length v - 1)] of
               None \<Rightarrow> None
             | Some sChar \<Rightarrow>
                 let rChar = [v ! 0];
                     rIdx = indexOf rankChars rChar
                 in if rIdx = - 1 then Some None
                    else if sChar \<notin> set suitChars then Some None
                    else Some (Some \<lparr>r = rIdx + 2, s = sChar\<rparr>)))"

definition cardsEqual :: "Card \<Rightarrow> Card \<Rightarrow> bool" where
  "cardsEqual a b = (r a = r b \<and> s a = s b)"

section \<open>Hand evaluation (lines 38--123)\<close>

text \<open>
  A rank tuple is a JavaScript array of numbers. Reading past the end of an array gives
  \<^verbatim>\<open>undefined\<close>, and \<^verbatim>\<open>evaluate\<close> stores such a read into its result when too few cards
  are supplied, so an entry is either a number or \<^verbatim>\<open>undefined\<close> (\<open>None\<close>).
\<close>

type_synonym RankTuple = "int option list"

text \<open>\<^verbatim>\<open>a[i]\<close> on arrays: \<^verbatim>\<open>undefined\<close> outside the array.\<close>

definition at :: "'a option list \<Rightarrow> nat \<Rightarrow> 'a option" where
  "at xs i = (if i < length xs then xs ! i else None)"

definition atNum :: "int list \<Rightarrow> nat \<Rightarrow> int option" where
  "atNum xs i = (if i < length xs then Some (xs ! i) else None)"

text \<open>The map of \<^verbatim>\<open>countsByRank\<close> keeps its keys in the order of first insertion.\<close>

fun bump :: "int \<Rightarrow> (int \<times> int) list \<Rightarrow> (int \<times> int) list" where
  "bump k [] = [(k, 0 + 1)]"
| "bump k ((k', n) # m) = (if k' = k then (k', n + 1) # m else (k', n) # bump k m)"

text \<open>
  \<^verbatim>\<open>sort((a,b)=> b[1]-a[1] || b[0]-a[0])\<close>: count descending, then rank descending. The keys
  of the map are pairwise different, so the comparator never returns 0 on two entries and
  the sorted order does not depend on the sorting algorithm.
\<close>

definition countsByRank :: "Card list \<Rightarrow> (int \<times> int) list" where
  "countsByRank cards =
     sort_key (\<lambda>(rk, n). (- n, - rk)) (foldl (\<lambda>m c. bump (r c) m) [] cards)"

fun groupPush :: "Card \<Rightarrow> (string \<times> Card list) list \<Rightarrow> (string \<times> Card list) list" where
  "groupPush c [] = [(s c, [] @ [c])]"
| "groupPush c ((k, cs) # m) = (if k = s c then (k, cs @ [c]) # m else (k, cs) # groupPush c m)"

definition suitGroups :: "Card list \<Rightarrow> (string \<times> Card list) list" where
  "suitGroups cards = foldl (\<lambda>m c. groupPush c m) [] cards"

text \<open>The loop of \<^verbatim>\<open>bestStraightHigh\<close>: \<open>prev\<close> is \<^verbatim>\<open>arr[i-1]\<close>.\<close>

fun straightLoop :: "int \<Rightarrow> nat \<Rightarrow> int \<Rightarrow> int list \<Rightarrow> int" where
  "straightLoop prev run best [] = best"
| "straightLoop prev run best (x # xs) =
     (if x = prev + 1
      then straightLoop x (run + 1) (if run + 1 \<ge> 5 then max best x else best) xs
      else if x \<noteq> prev then straightLoop x 1 best xs
      else straightLoop x run best xs)"

definition bestStraightHigh :: "int list \<Rightarrow> int" where
  "bestStraightHigh ranks =
     (let arr0 = sort (remdups ranks);
          arr = (if 14 \<in> set arr0 then 1 # arr0 else arr0)
      in case arr of [] \<Rightarrow> 0 | a # as \<Rightarrow> straightLoop a 1 0 as)"

definition sortDesc :: "int list \<Rightarrow> int list" where
  "sortDesc vals = rev (sort vals)"

definition topNDesc :: "int list \<Rightarrow> nat \<Rightarrow> int list" where
  "topNDesc vals n = take n (sortDesc vals)"

text \<open>The first straight-flush loop: the first suit group of at least five cards whose ranks
  hold a straight decides.\<close>

fun straightFlushHigh :: "(string \<times> Card list) list \<Rightarrow> int option" where
  "straightFlushHigh [] = None"
| "straightFlushHigh ((k, cs) # m) =
     (if length cs \<ge> 5 \<and> bestStraightHigh (remdups (map r cs)) > 0
      then Some (bestStraightHigh (remdups (map r cs)))
      else straightFlushHigh m)"

fun flushGroup :: "(string \<times> Card list) list \<Rightarrow> Card list option" where
  "flushGroup [] = None"
| "flushGroup ((k, cs) # m) = (if length cs \<ge> 5 then Some cs else flushGroup m)"

definition ranksWithCount :: "(int \<times> int) list \<Rightarrow> int \<Rightarrow> int list" where
  "ranksWithCount cnts n = sortDesc (map fst (filter (\<lambda>(rk, c). c = n) cnts))"

definition evaluate :: "Card list \<Rightarrow> RankTuple" where
  "evaluate cards =
     (let bySuit = suitGroups cards in
      case straightFlushHigh bySuit of
        Some high \<Rightarrow> [Some 8, Some high]
      | None \<Rightarrow>
     (let cnts = countsByRank cards;
          quads = ranksWithCount cnts 4 in
      if quads \<noteq> [] then
        (let q = quads ! 0;
             k = atNum (topNDesc (map r (filter (\<lambda>c. r c \<noteq> q) cards)) 1) 0
         in [Some 7, Some q, k])
      else
     (let trips = ranksWithCount cnts 3;
          pairs = ranksWithCount cnts 2 in
      if length trips \<ge> 2 \<or> (length trips \<ge> 1 \<and> length pairs \<ge> 1) then
        (let t = trips ! 0;
             p = (if length trips \<ge> 2 then trips ! 1 else pairs ! 0)
         in [Some 6, Some t, Some p])
      else
      case flushGroup bySuit of
        Some cs \<Rightarrow> Some 5 # map Some (topNDesc (map r cs) 5)
      | None \<Rightarrow>
     (let sh = bestStraightHigh (sort (remdups (map r cards))) in
      if sh > 0 then [Some 4, Some sh]
      else if trips \<noteq> [] then
        (let t = trips ! 0;
             ks = topNDesc (map r (filter (\<lambda>c. r c \<noteq> t) cards)) 2
         in Some 3 # Some t # map Some ks)
      else if length pairs \<ge> 2 then
        (let p1 = pairs ! 0; p2 = pairs ! 1;
             k = atNum (topNDesc (map r (filter (\<lambda>c. r c \<noteq> p1 \<and> r c \<noteq> p2) cards)) 1) 0
         in [Some 2, Some p1, Some p2, k])
      else if length pairs = 1 then
        (let p = pairs ! 0;
             ks = topNDesc (map r (filter (\<lambda>c. r c \<noteq> p) cards)) 3
         in Some 1 # Some p # map Some ks)
      else Some 0 # map Some (topNDesc (map r cards) 5)))))"

text \<open>\<^verbatim>\<open>x ?? 0\<close>\<close>

definition nullish0 :: "int option \<Rightarrow> int" where
  "nullish0 x = (case x of None \<Rightarrow> 0 | Some v \<Rightarrow> v)"

text \<open>The loop of \<^verbatim>\<open>compareRankTuples\<close>, from index \<open>i\<close> up to \<open>n\<close>.\<close>

function cmpLoop :: "nat \<Rightarrow> nat \<Rightarrow> RankTuple \<Rightarrow> RankTuple \<Rightarrow> int" where
  "cmpLoop i n a b =
     (if i < n
      then (let av = nullish0 (at a i); bv = nullish0 (at b i)
            in if av \<noteq> bv then av - bv else cmpLoop (i + 1) n a b)
      else 0)"
  by pat_completeness auto
termination
  by (relation "measure (\<lambda>(i, n, a, b). n - i)") auto

declare cmpLoop.simps [simp del]

definition compareRankTuples :: "RankTuple \<Rightarrow> RankTuple \<Rightarrow> int" where
  "compareRankTuples a b = cmpLoop 0 (max (length a) (length b)) a b"

definition catNames :: "string list" where
  "catNames = [''High Card'', ''One Pair'', ''Two Pair'', ''Three of a Kind'', ''Straight'',
               ''Flush'', ''Full House'', ''Four of a Kind'', ''Straight Flush'']"

text \<open>\<^verbatim>\<open>[...][cat] || ""\<close>; the argument is the first entry of a rank tuple.\<close>

definition catName :: "int option \<Rightarrow> string" where
  "catName cat =
     (case cat of
        None \<Rightarrow> ''''
      | Some c \<Rightarrow> if 0 \<le> c \<and> c < 9 then catNames ! nat c else '''')"

section \<open>Analysis over all opponent combinations (lines 125--172)\<close>

datatype Decision = Fold | Call

record BreakdownEntry =
  count :: nat
  samples :: "string list"

text \<open>A breakdown is an object used as a dictionary; its keys keep their insertion order.\<close>

type_synonym Breakdown = "(string \<times> BreakdownEntry) list"

record SimpleResult =
  heroCat :: string
  better :: nat
  worse :: nat
  tie :: nat
  betterBreakdown :: Breakdown
  worseBreakdown :: Breakdown
  recommendation :: Decision

text \<open>\<^verbatim>\<open>findIndex\<close> and \<^verbatim>\<open>splice(i,1)\<close> of the local function \<^verbatim>\<open>rm\<close>.\<close>

fun findIndex :: "('a \<Rightarrow> bool) \<Rightarrow> 'a list \<Rightarrow> int" where
  "findIndex P [] = - 1"
| "findIndex P (y # ys) =
     (if P y then 0 else (let i = findIndex P ys in if i = - 1 then - 1 else i + 1))"

definition rm :: "Card list \<Rightarrow> Card \<Rightarrow> Card list" where
  "rm deck c =
     (let i = findIndex (\<lambda>x. cardsEqual x c) deck
      in if i \<ge> 0 then take (nat i) deck @ drop (nat i + 1) deck else deck)"

text \<open>The three statements that record one opponent holding in a breakdown.\<close>

fun record_sample :: "string \<Rightarrow> string \<Rightarrow> Breakdown \<Rightarrow> Breakdown" where
  "record_sample label smp [] =
     [(label, \<lparr>count = 0 + 1, samples = (if length ([]::string list) < 3 then [] @ [smp] else [])\<rparr>)]"
| "record_sample label smp ((k, e) # m) =
     (if k = label
      then (k, \<lparr>count = count e + 1,
                samples = (if length (samples e) < 3 then samples e @ [smp] else samples e)\<rparr>) # m
      else (k, e) # record_sample label smp m)"

record Tally =
  t_better :: nat
  t_worse :: nat
  t_tie :: nat
  t_betterBreakdown :: Breakdown
  t_worseBreakdown :: Breakdown

text \<open>The body of the inner loop for the opponent holding \<open>(c1, c2)\<close>.\<close>

definition classify :: "Card list \<Rightarrow> RankTuple \<Rightarrow> Tally \<Rightarrow> Card \<times> Card \<Rightarrow> Tally" where
  "classify flop heroRank st opp =
     (let oppRank = evaluate ([fst opp, snd opp] @ flop);
          cmp = compareRankTuples oppRank heroRank
      in if cmp > 0 then
           st\<lparr>t_better := t_better st + 1,
              t_betterBreakdown :=
                record_sample (catName (at oppRank 0))
                  (cardToStr (fst opp) @ '' '' @ cardToStr (snd opp)) (t_betterBreakdown st)\<rparr>
         else if cmp < 0 then
           st\<lparr>t_worse := t_worse st + 1,
              t_worseBreakdown :=
                record_sample (catName (at oppRank 0))
                  (cardToStr (fst opp) @ '' '' @ cardToStr (snd opp)) (t_worseBreakdown st)\<rparr>
         else st\<lparr>t_tie := t_tie st + 1\<rparr>)"

text \<open>\<^verbatim>\<open>for (let i=0;i<deck.length;i++) for (let j=i+1;j<deck.length;j++)\<close>: the holdings
  \<^verbatim>\<open>[deck[i], deck[j]]\<close> in the order the two loops visit them.\<close>

definition oppPairs :: "Card list \<Rightarrow> (Card \<times> Card) list" where
  "oppPairs deck =
     concat (map (\<lambda>i. map (\<lambda>j. (deck ! i, deck ! j)) [i + 1 ..< length deck]) [0 ..< length deck])"

text \<open>The decision rule of line 170.\<close>

definition decide :: "nat \<Rightarrow> nat \<Rightarrow> Decision" where
  "decide b w = (if b > w then Fold else Call)"

definition remainingDeck :: "Card list \<Rightarrow> Card list \<Rightarrow> Card list" where
  "remainingDeck hero flop = foldl rm (foldl rm makeDeck hero) flop"

definition analyzeSimple :: "Card list \<Rightarrow> Card list \<Rightarrow> SimpleResult" where
  "analyzeSimple hero flop =
     (let deck = remainingDeck hero flop;
          heroRank = evaluate (hero @ flop);
          st = foldl (classify flop heroRank)
                 \<lparr>t_better = 0, t_worse = 0, t_tie = 0, t_betterBreakdown = [], t_worseBreakdown = []\<rparr>
                 (oppPairs deck)
      in \<lparr>heroCat = catName (at heroRank 0),
          better = t_better st, worse = t_worse st, tie = t_tie st,
          betterBreakdown = t_betterBreakdown st, worseBreakdown = t_worseBreakdown st,
          recommendation = decide (t_better st) (t_worse st)\<rparr>)"

section \<open>Parsing a card set (lines 266--272)\<close>

text \<open>\<^verbatim>\<open>text.split(/\s+/).filter(Boolean)\<close>: the maximal runs of characters that are not white space.\<close>

fun splitWs :: "string \<Rightarrow> string \<Rightarrow> string list" where
  "splitWs cur [] = (if cur = [] then [] else [cur])"
| "splitWs cur (ch # rest) =
     (if isSpace ch then (if cur = [] then splitWs [] rest else cur # splitWs [] rest)
      else splitWs (cur @ [ch]) rest)"

definition tokens :: "string \<Rightarrow> string list" where
  "tokens t = splitWs [] t"

text \<open>
  The loop of \<^verbatim>\<open>parseCards\<close> stops at the first token that is no card or repeats a card. As
  for \<^verbatim>\<open>strToCard\<close>, the result \<open>Some None\<close> is \<^verbatim>\<open>null\<close>, and \<open>None\<close> says that the loop came to
  a token on which \<^verbatim>\<open>strToCard\<close> is not modelled.
\<close>

fun parseLoop :: "Card list \<Rightarrow> string list \<Rightarrow> Card list option option" where
  "parseLoop cards [] = Some (Some cards)"
| "parseLoop cards (p # ps) =
     (case strToCard p of
        None \<Rightarrow> None
      | Some None \<Rightarrow> Some None
      | Some (Some c) \<Rightarrow>
          if list_ex (\<lambda>x. cardsEqual x c) cards then Some None else parseLoop (cards @ [c]) ps)"

definition parseCards :: "string \<Rightarrow> int \<Rightarrow> Card list option option" where
  "parseCards t n =
     (let parts = tokens t in
      if int (length parts) \<noteq> n then Some None else parseLoop [] parts)"

section \<open>Auxiliary notions for the statements\<close>

text \<open>The entry of a tuple as the comparator reads it: \<^verbatim>\<open>t[i] ?? 0\<close>.\<close>

definition entry :: "RankTuple \<Rightarrow> nat \<Rightarrow> int" where
  "entry t i = nullish0 (at t i)"

text \<open>
  A strength value as the data model describes it: a category in 0..8 followed by tiebreak
  entries that are ranks 2..14.
\<close>

definition isRankEntry :: "int option \<Rightarrow> bool" where
  "isRankEntry k = (case k of None \<Rightarrow> False | Some v \<Rightarrow> 2 \<le> v \<and> v \<le> 14)"

definition isStrengthValue :: "RankTuple \<Rightarrow> bool" where
  "isStrengthValue t =
     (case t of
        [] \<Rightarrow> False
      | c # ks \<Rightarrow> (case c of None \<Rightarrow> False | Some cat \<Rightarrow> 0 \<le> cat \<and> cat \<le> 8)
                  \<and> list_all isRankEntry ks)"




text \<open>
  A breakdown is consistent with a total when its per-category counts add up to the total,
  no category label occurs twice, and every category holds at most \<open>min 3 count\<close> samples.
\<close>

definition breakdownOk :: "Breakdown \<Rightarrow> nat \<Rightarrow> bool" where
  "breakdownOk bd n =
     (sum_list (map (\<lambda>(k, e). count e) bd) = n
      \<and> distinct (map fst bd)
      \<and> list_all (\<lambda>(k, e). length (samples e) \<le> min 3 (count e)) bd)"


definition tallyOk :: "Tally \<Rightarrow> bool" where
  "tallyOk st = (breakdownOk (t_betterBreakdown st) (t_better st)
                 \<and> breakdownOk (t_worseBreakdown st) (t_worse st))"

text \<open>The number of cards of a rank, and the cards of a suit in input order.\<close>

definition cntRank :: "Card list \<Rightarrow> int \<Rightarrow> int" where
  "cntRank cards k = int (length (filter (\<lambda>c. r c = k) cards))"

definition suitCards :: "Card list \<Rightarrow> string \<Rightarrow> Card list" where
  "suitCards cards t = filter (\<lambda>c. s c = t) cards"

text \<open>The ranks that occur exactly \<open>n\<close> times, as \<^verbatim>\<open>evaluate\<close> computes them (descending).\<close>

definition rws :: "Card list \<Rightarrow> int \<Rightarrow> int list" where
  "rws cards n = ranksWithCount (countsByRank cards) n"

text \<open>The high ranks of the runs of five consecutive values in a set of ranks, and the set of ranks with the ace also counted as 1.\<close>

definition straightHighs :: "int set \<Rightarrow> int set" where
  "straightHighs S = {h. {h - 4 .. h} \<subseteq> S}"

definition aceLow :: "int set \<Rightarrow> int set" where
  "aceLow S = (if 14 \<in> S then insert 1 S else S)"

text \<open>A card of the deck: rank 2..14 and one of the four suits.\<close>

definition validCard :: "Card \<Rightarrow> bool" where
  "validCard c = (2 \<le> r c \<and> r c \<le> 14 \<and> s c \<in> set suitChars)"

text \<open>Five cards of one suit; four cards of one rank; three cards of one rank and two of another.\<close>

definition hasFlush :: "Card list \<Rightarrow> bool" where
  "hasFlush cs = list_ex (\<lambda>t. 5 \<le> length (suitCards cs t)) (map s cs)"

definition hasQuads :: "Card list \<Rightarrow> bool" where
  "hasQuads cs = list_ex (\<lambda>k. 4 \<le> cntRank cs k) (map r cs)"

definition hasFullHouse :: "Card list \<Rightarrow> bool" where
  "hasFullHouse cs =
     list_ex (\<lambda>t. list_ex (\<lambda>p. t \<noteq> p \<and> 3 \<le> cntRank cs t \<and> 2 \<le> cntRank cs p) (map r cs)) (map r cs)"

section \<open>The reference for the evaluator\<close>

text \<open>A hand as the evaluator expects it: cards of the deck, pairwise different.\<close>

definition validHand :: "Card list \<Rightarrow> bool" where
  "validHand cs = (distinct cs \<and> list_all validCard cs)"

subsection \<open>The reference: the best five-card hand\<close>

text \<open>
  A standard evaluator of exactly five cards. The ranks are grouped and the groups ordered
  by size, larger first, and by rank, higher first, among groups of one size; the sizes of
  the groups name the category, the ranks of the groups in that order are the tiebreaks.
  A straight is five different ranks that span four, or the wheel, whose high rank is 5.
\<close>

definition rankGroups :: "Card list \<Rightarrow> (int \<times> int) list" where
  "rankGroups h =
     sort_key (\<lambda>(k, n). (- n, - k))
       (map (\<lambda>k. (k, int (count_list (map r h) k))) (remdups (map r h)))"

definition isFlush5 :: "Card list \<Rightarrow> bool" where
  "isFlush5 h = list_all (\<lambda>c. s c = s (hd h)) h"

definition straightHigh5 :: "Card list \<Rightarrow> int" where
  "straightHigh5 h =
     (let rs = sort (map r h) in
      if distinct rs \<and> last rs - hd rs = 4 then last rs
      else if rs = [2, 3, 4, 5, 14] then 5
      else 0)"

definition eval5 :: "Card list \<Rightarrow> RankTuple" where
  "eval5 h =
     (let g = rankGroups h;
          sizes = map snd g;
          ks = map (\<lambda>(k, n). Some k) g;
          sh = straightHigh5 h
      in if isFlush5 h \<and> sh > 0 then [Some 8, Some sh]
         else if sizes = [4, 1] then Some 7 # ks
         else if sizes = [3, 2] then Some 6 # ks
         else if isFlush5 h then Some 5 # ks
         else if sh > 0 then [Some 4, Some sh]
         else if sizes = [3, 1, 1] then Some 3 # ks
         else if sizes = [2, 2, 1] then Some 2 # ks
         else if sizes = [2, 1, 1, 1] then Some 1 # ks
         else Some 0 # ks)"

text \<open>Every choice of five of the cards, and the maximum of a list of tuples under the
  comparator (the first of the maximal ones).\<close>

definition fiveCardHands :: "Card list \<Rightarrow> Card list list" where
  "fiveCardHands cs = filter (\<lambda>h. length h = 5) (subseqs cs)"

fun maxTuple :: "RankTuple list \<Rightarrow> RankTuple" where
  "maxTuple [] = []"
| "maxTuple (t # ts) = foldl (\<lambda>best u. if compareRankTuples u best > 0 then u else best) t ts"

definition bestOfFive :: "Card list \<Rightarrow> RankTuple" where
  "bestOfFive cs = maxTuple (map eval5 (fiveCardHands cs))"

subsection \<open>Patterns present in a set of cards\<close>

definition nR :: "Card set \<Rightarrow> int \<Rightarrow> nat" where
  "nR H k = card {c \<in> H. r c = k}"

definition suitRanks :: "Card set \<Rightarrow> string \<Rightarrow> int set" where
  "suitRanks H t = r ` {c \<in> H. s c = t}"

text \<open>
  \<open>achieves H v\<close>: the set of cards \<open>H\<close> holds the cards of a five-card pattern whose
  strength value is \<open>v\<close>.
\<close>

inductive achieves :: "Card set \<Rightarrow> RankTuple \<Rightarrow> bool" for H :: "Card set" where
  straightFlush: "x \<in> straightHighs (aceLow (suitRanks H t)) \<Longrightarrow> achieves H [Some 8, Some x]"
| quads: "4 \<le> nR H q \<Longrightarrow> k \<in> r ` H \<Longrightarrow> k \<noteq> q \<Longrightarrow> achieves H [Some 7, Some q, Some k]"
| fullHouse: "3 \<le> nR H t \<Longrightarrow> 2 \<le> nR H p \<Longrightarrow> t \<noteq> p \<Longrightarrow> achieves H [Some 6, Some t, Some p]"
| flush: "length ks = 5 \<Longrightarrow> sorted_wrt (>) ks \<Longrightarrow> set ks \<subseteq> suitRanks H t
          \<Longrightarrow> achieves H (Some 5 # map Some ks)"
| straight: "x \<in> straightHighs (aceLow (r ` H)) \<Longrightarrow> achieves H [Some 4, Some x]"
| trips: "3 \<le> nR H t \<Longrightarrow> length ks = 2 \<Longrightarrow> sorted_wrt (>) ks \<Longrightarrow> set ks \<subseteq> r ` H - {t}
          \<Longrightarrow> achieves H (Some 3 # Some t # map Some ks)"
| twoPair: "2 \<le> nR H p1 \<Longrightarrow> 2 \<le> nR H p2 \<Longrightarrow> p2 < p1 \<Longrightarrow> k \<in> r ` H - {p1, p2}
          \<Longrightarrow> achieves H [Some 2, Some p1, Some p2, Some k]"
| pair: "2 \<le> nR H p \<Longrightarrow> length ks = 3 \<Longrightarrow> sorted_wrt (>) ks \<Longrightarrow> set ks \<subseteq> r ` H - {p}
          \<Longrightarrow> achieves H (Some 1 # Some p # map Some ks)"
| highCard: "length ks = 5 \<Longrightarrow> sorted_wrt (>) ks \<Longrightarrow> set ks \<subseteq> r ` H
          \<Longrightarrow> achieves H (Some 0 # map Some ks)"

text \<open>The highest rank of the hand outside a set of ranks.\<close>

definition kickerOf :: "Card list \<Rightarrow> int set \<Rightarrow> int" where
  "kickerOf cs X = Max (r ` set cs - X)"

text \<open>The sort key of the rank groups, and the groups listed by size.\<close>

definition groupKey :: "int \<times> int \<Rightarrow> int \<times> int" where
  "groupKey = (\<lambda>(k, n). (- n, - k))"

definition blocks :: "Card list \<Rightarrow> (int \<times> int) list" where
  "blocks h = map (\<lambda>k. (k, 4)) (rws h 4) @ map (\<lambda>k. (k, 3)) (rws h 3)
            @ map (\<lambda>k. (k, 2)) (rws h 2) @ map (\<lambda>k. (k, 1)) (rws h 1)"

section \<open>The decision rule\<close>

text \<open>
  Claim C3. The decision rule is defined on every pair of naturals: it answers Fold exactly
  when \<open>better > worse\<close> and Call exactly when \<open>better \<le> worse\<close>, and the pair \<open>(0, 0)\<close> gives Call.
  The recommendation stored in the result of the analysis is this rule applied to the two
  counts of the result.
\<close>

theorem decide_fold_iff:
  "(decide b w = Fold) = (w < b) \<and> (decide b w = Call) = (b \<le> w) \<and> decide 0 0 = Call
   \<and> recommendation (analyzeSimple hero flop)
       = decide (better (analyzeSimple hero flop)) (worse (analyzeSimple hero flop))"
  by (auto simp: decide_def analyzeSimple_def Let_def)

section \<open>The comparator\<close>

lemma entry_beyond: "length t \<le> i \<Longrightarrow> entry t i = 0"
  by (simp add: entry_def at_def nullish0_def)

lemma cmpLoop_zero_iff:
  "cmpLoop i n a b = 0 \<longleftrightarrow> (\<forall>j. i \<le> j \<and> j < n \<longrightarrow> entry a j = entry b j)"
proof (induction i n a b rule: cmpLoop.induct)
  case (1 i n a b)
  show ?case
  proof (cases "i < n")
    case False
    then show ?thesis by (simp add: cmpLoop.simps)
  next
    case True
    show ?thesis
    proof (cases "entry a i = entry b i")
      case False
      with True show ?thesis
        by (subst cmpLoop.simps) (auto simp: entry_def Let_def)
    next
      case eq: True
      have "cmpLoop i n a b = cmpLoop (i + 1) n a b"
        using True eq by (subst cmpLoop.simps) (simp add: entry_def Let_def)
      moreover have "cmpLoop (i + 1) n a b = 0 \<longleftrightarrow> (\<forall>j. i + 1 \<le> j \<and> j < n \<longrightarrow> entry a j = entry b j)"
        using 1 True eq by (simp add: entry_def)
      moreover have "(\<forall>j. i + 1 \<le> j \<and> j < n \<longrightarrow> entry a j = entry b j) \<longleftrightarrow> (\<forall>j. i \<le> j \<and> j < n \<longrightarrow> entry a j = entry b j)"
      proof (intro iffI allI impI)
        fix j assume h: "\<forall>j. i + 1 \<le> j \<and> j < n \<longrightarrow> entry a j = entry b j" and j: "i \<le> j \<and> j < n"
        show "entry a j = entry b j"
        proof (cases "j = i")
          case True then show ?thesis using eq by simp
        next
          case False then show ?thesis using h j by simp
        qed
      next
        fix j assume h: "\<forall>j. i \<le> j \<and> j < n \<longrightarrow> entry a j = entry b j" and j: "i + 1 \<le> j \<and> j < n"
        then show "entry a j = entry b j" by simp
      qed
      ultimately show ?thesis by simp
    qed
  qed
qed

lemma cmpLoop_first_diff:
  "i \<le> k \<Longrightarrow> k < n \<Longrightarrow> entry a k \<noteq> entry b k \<Longrightarrow> (\<forall>j. i \<le> j \<and> j < k \<longrightarrow> entry a j = entry b j)
   \<Longrightarrow> cmpLoop i n a b = entry a k - entry b k"
proof (induction i n a b rule: cmpLoop.induct)
  case (1 i n a b)
  show ?case
  proof (cases "i = k")
    case True
    with 1(3,4) show ?thesis by (subst cmpLoop.simps) (simp add: entry_def Let_def)
  next
    case False
    with 1(2) have lt: "i < k" by simp
    with 1(5) have eq: "entry a i = entry b i" by simp
    have "cmpLoop i n a b = cmpLoop (i + 1) n a b"
      using lt 1(3) eq by (subst cmpLoop.simps) (simp add: entry_def Let_def)
    also have "\<dots> = entry a k - entry b k"
      using 1(1)[OF _ refl refl] lt 1(3,4,5) eq by (simp add: entry_def)
    finally show ?thesis .
  qed
qed

lemma compare_zero_iff: "compareRankTuples a b = 0 \<longleftrightarrow> (\<forall>j. entry a j = entry b j)"
proof -
  have "(\<forall>j. 0 \<le> j \<and> j < max (length a) (length b) \<longrightarrow> entry a j = entry b j) \<longleftrightarrow> (\<forall>j. entry a j = entry b j)"
  proof (intro iffI allI impI)
    fix j assume h: "\<forall>j. 0 \<le> j \<and> j < max (length a) (length b) \<longrightarrow> entry a j = entry b j"
    show "entry a j = entry b j"
    proof (cases "j < max (length a) (length b)")
      case True then show ?thesis using h by simp
    next
      case False then show ?thesis by (simp add: entry_beyond)
    qed
  qed simp
  then show ?thesis by (simp add: compareRankTuples_def cmpLoop_zero_iff)
qed

lemma compare_first_diff:
  assumes "entry a k \<noteq> entry b k" "\<forall>j<k. entry a j = entry b j"
  shows "compareRankTuples a b = entry a k - entry b k"
proof -
  have "k < max (length a) (length b)"
  proof (rule ccontr)
    assume "\<not> k < max (length a) (length b)"
    then have "entry a k = 0" "entry b k = 0" by (simp_all add: entry_beyond)
    with assms(1) show False by simp
  qed
  then show ?thesis
    unfolding compareRankTuples_def using assms by (intro cmpLoop_first_diff) auto
qed

lemma compare_lex:
  "compareRankTuples a b =
     (if \<forall>j. entry a j = entry b j then 0
      else entry a (LEAST k. entry a k \<noteq> entry b k) - entry b (LEAST k. entry a k \<noteq> entry b k))"
proof (cases "\<forall>j. entry a j = entry b j")
  case True
  then show ?thesis by (simp add: compare_zero_iff)
next
  case False
  then obtain k0 where "entry a k0 \<noteq> entry b k0" by blast
  then have d: "entry a (LEAST k. entry a k \<noteq> entry b k) \<noteq> entry b (LEAST k. entry a k \<noteq> entry b k)"
    by (rule LeastI)
  have "\<forall>j<(LEAST k. entry a k \<noteq> entry b k). entry a j = entry b j"
    using not_less_Least by blast
  with d have "compareRankTuples a b = entry a (LEAST k. entry a k \<noteq> entry b k) - entry b (LEAST k. entry a k \<noteq> entry b k)"
    by (rule compare_first_diff)
  with False show ?thesis by simp
qed

lemma compare_neg_iff:
  "compareRankTuples a b < 0 \<longleftrightarrow> (\<exists>k. entry a k < entry b k \<and> (\<forall>j<k. entry a j = entry b j))"
proof
  assume lt: "compareRankTuples a b < 0"
  then have "\<not> (\<forall>j. entry a j = entry b j)" using compare_zero_iff[of a b] by auto
  then obtain k0 where "entry a k0 \<noteq> entry b k0" by blast
  define k where "k = (LEAST k. entry a k \<noteq> entry b k)"
  have d: "entry a k \<noteq> entry b k" unfolding k_def using \<open>entry a k0 \<noteq> entry b k0\<close> by (rule LeastI)
  have e: "\<forall>j<k. entry a j = entry b j" unfolding k_def using not_less_Least by blast
  from compare_first_diff[OF d e] lt have "entry a k < entry b k" by simp
  with e show "\<exists>k. entry a k < entry b k \<and> (\<forall>j<k. entry a j = entry b j)" by blast
next
  assume "\<exists>k. entry a k < entry b k \<and> (\<forall>j<k. entry a j = entry b j)"
  then obtain k where "entry a k < entry b k" "\<forall>j<k. entry a j = entry b j" by blast
  then show "compareRankTuples a b < 0"
    using compare_first_diff[of a k b] by simp
qed

lemma compare_swap: "compareRankTuples a b = - compareRankTuples b a"
proof (cases "\<forall>j. entry a j = entry b j")
  case True
  then show ?thesis using compare_zero_iff[of a b] compare_zero_iff[of b a] by simp
next
  case False
  then obtain k0 where "entry a k0 \<noteq> entry b k0" by blast
  define k where "k = (LEAST k. entry a k \<noteq> entry b k)"
  have d: "entry a k \<noteq> entry b k" unfolding k_def using \<open>entry a k0 \<noteq> entry b k0\<close> by (rule LeastI)
  have e: "\<forall>j<k. entry a j = entry b j" unfolding k_def using not_less_Least by blast
  have "compareRankTuples a b = entry a k - entry b k" using d e by (rule compare_first_diff)
  moreover have "compareRankTuples b a = entry b k - entry a k"
    using d e by (intro compare_first_diff) auto
  ultimately show ?thesis by simp
qed

lemma compare_trans_lt:
  assumes "compareRankTuples a b < 0" "compareRankTuples b c < 0"
  shows "compareRankTuples a c < 0"
proof -
  from assms(1) obtain k where k: "entry a k < entry b k" "\<forall>j<k. entry a j = entry b j"
    unfolding compare_neg_iff by blast
  from assms(2) obtain l where l: "entry b l < entry c l" "\<forall>j<l. entry b j = entry c j"
    unfolding compare_neg_iff by blast
  have "entry a (min k l) < entry c (min k l) \<and> (\<forall>j<min k l. entry a j = entry c j)"
    using k l by (cases k l rule: linorder_cases) (auto simp: min_def)
  then show ?thesis unfolding compare_neg_iff by blast
qed

lemma compare_zero_left: "compareRankTuples a b = 0 \<Longrightarrow> compareRankTuples a c = compareRankTuples b c"
  unfolding compare_zero_iff by (simp add: compare_lex)

lemma compare_zero_right: "compareRankTuples b c = 0 \<Longrightarrow> compareRankTuples a b = compareRankTuples a c"
  unfolding compare_zero_iff by (simp add: compare_lex)

lemma entry_nth: "i < length t \<Longrightarrow> entry t i = nullish0 (t ! i)"
  by (simp add: entry_def at_def)

lemma strength_entry_nonzero:
  assumes "isStrengthValue t" "0 < i" "i < length t"
  shows "entry t i \<noteq> 0"
proof -
  from assms obtain c ks where t: "t = c # ks" and ks: "list_all isRankEntry ks"
    by (cases t) (auto simp: isStrengthValue_def)
  from assms(2,3) t have "t ! i \<in> set ks" by (cases i) auto
  with ks have "isRankEntry (t ! i)" by (simp add: list_all_iff)
  then show ?thesis using assms(3)
    by (auto simp: entry_nth isRankEntry_def nullish0_def split: option.splits)
qed

lemma strength_no_undefined:
  assumes "isStrengthValue t" "i < length t"
  shows "t ! i = Some (entry t i)"
proof -
  from assms obtain c ks where t: "t = c # ks" and c: "c \<noteq> None" and ks: "list_all isRankEntry ks"
    by (cases t) (auto simp: isStrengthValue_def split: option.splits)
  have "t ! i \<noteq> None"
  proof (cases i)
    case 0 with t c show ?thesis by simp
  next
    case (Suc j)
    with assms(2) t have "t ! i \<in> set ks" by auto
    with ks have "isRankEntry (t ! i)" by (simp add: list_all_iff)
    then show ?thesis by (auto simp: isRankEntry_def split: option.splits)
  qed
  then show ?thesis using assms(2) by (auto simp: entry_nth nullish0_def)
qed

lemma strength_length_le:
  assumes a: "isStrengthValue a" and b: "isStrengthValue b"
    and eq: "\<forall>j. entry a j = entry b j"
  shows "length a \<le> length b"
proof (rule ccontr)
  assume "\<not> length a \<le> length b"
  then have lt: "length b < length a" by simp
  from b have "0 < length b" by (cases b) (auto simp: isStrengthValue_def)
  with a lt have "entry a (length b) \<noteq> 0" by (intro strength_entry_nonzero) auto
  moreover have "entry b (length b) = 0" by (simp add: entry_beyond)
  ultimately show False using eq by simp
qed

lemma compare_zero_strength:
  assumes a: "isStrengthValue a" and b: "isStrengthValue b"
  shows "(compareRankTuples a b = 0) = (a = b)"
proof
  assume "compareRankTuples a b = 0"
  then have eq: "\<forall>j. entry a j = entry b j" by (simp add: compare_zero_iff)
  then have eq': "\<forall>j. entry b j = entry a j" by simp
  have len: "length a = length b"
    using strength_length_le[OF a b eq] strength_length_le[OF b a eq'] by simp
  show "a = b"
  proof (rule nth_equalityI[OF len])
    fix i assume i: "i < length a"
    then have "a ! i = Some (entry a i)" using a by (rule strength_no_undefined[rotated])
    moreover have "b ! i = Some (entry b i)" using b i len by (intro strength_no_undefined) auto
    ultimately show "a ! i = b ! i" using eq by simp
  qed
next
  assume "a = b"
  then show "compareRankTuples a b = 0" by (simp add: compare_zero_iff)
qed

text \<open>
  Claim C6. The comparator is the lexicographic comparison of the two tuples read as
  infinite sequences in which every missing or undefined position counts as 0: it is 0 when
  the sequences agree, and otherwise the difference of the entries at the first position
  where they differ. It is reflexive, swapping the arguments negates the result (so the two
  results have opposite signs whenever they are nonzero), it is transitive, and a difference
  in the first entry (the category) decides the result whatever the tiebreaks are.
\<close>

theorem compare_total_order:
  "compareRankTuples x x = 0
   \<and> compareRankTuples a b = - compareRankTuples b a
   \<and> (compareRankTuples a b \<le> 0 \<and> compareRankTuples b c \<le> 0 \<longrightarrow> compareRankTuples a c \<le> 0)
   \<and> (compareRankTuples a b < 0 \<and> compareRankTuples b c < 0 \<longrightarrow> compareRankTuples a c < 0)
   \<and> (entry a 0 \<noteq> entry b 0 \<longrightarrow> compareRankTuples a b = entry a 0 - entry b 0)
   \<and> compareRankTuples a b =
       (if \<forall>j. entry a j = entry b j then 0
        else entry a (LEAST k. entry a k \<noteq> entry b k) - entry b (LEAST k. entry a k \<noteq> entry b k))"
proof (intro conjI impI)
  show "compareRankTuples x x = 0" by (simp add: compare_zero_iff)
  show "compareRankTuples a b = - compareRankTuples b a" by (rule compare_swap)
  show "compareRankTuples a c \<le> 0"
    if h: "compareRankTuples a b \<le> 0 \<and> compareRankTuples b c \<le> 0"
  proof (cases "compareRankTuples a b = 0")
    case True
    then show ?thesis using h compare_zero_left[of a b c] by simp
  next
    case ab: False
    show ?thesis
    proof (cases "compareRankTuples b c = 0")
      case True
      then show ?thesis using h compare_zero_right[of b c a] by simp
    next
      case False
      with ab h have "compareRankTuples a c < 0" by (intro compare_trans_lt[of a b c]) auto
      then show ?thesis by simp
    qed
  qed
  show "compareRankTuples a c < 0" if "compareRankTuples a b < 0 \<and> compareRankTuples b c < 0"
    using that compare_trans_lt[of a b c] by simp
  show "compareRankTuples a b = entry a 0 - entry b 0" if "entry a 0 \<noteq> entry b 0"
    using that by (intro compare_first_diff) auto
  show "compareRankTuples a b =
       (if \<forall>j. entry a j = entry b j then 0
        else entry a (LEAST k. entry a k \<noteq> entry b k) - entry b (LEAST k. entry a k \<noteq> entry b k))"
    by (rule compare_lex)
qed

theorem compare_total_order_witness:
  "compareRankTuples [Some 1, Some 14, Some 13, Some 7, Some 2] [Some 2, Some 7, Some 2, Some 14] < 0
   \<and> compareRankTuples [Some 2, Some 7, Some 2, Some 14] [Some 4, Some 5] < 0
   \<and> compareRankTuples [Some 1, Some 14, Some 13, Some 7, Some 2] [Some 4, Some 5] < 0
   \<and> entry [Some 1, Some 14, Some 13, Some 7, Some 2] 0 \<noteq> entry [Some 2, Some 7, Some 2, Some 14] 0
   \<and> compareRankTuples [Some 1, Some 14, Some 13, Some 7, Some 2] [Some 2, Some 7, Some 2, Some 14] = 1 - 2"
proof -
  have ab: "compareRankTuples [Some 1, Some 14, Some 13, Some 7, Some 2] [Some 2, Some 7, Some 2, Some 14] < 0"
    by (simp add: compareRankTuples_def cmpLoop.simps at_def nullish0_def)
  have bc: "compareRankTuples [Some 2, Some 7, Some 2, Some 14] [Some 4, Some 5] < 0"
    by (simp add: compareRankTuples_def cmpLoop.simps at_def nullish0_def)
  have e: "entry [Some 1, Some 14, Some 13, Some 7, Some 2] 0 \<noteq> entry [Some 2, Some 7, Some 2, Some 14] 0"
    by (simp add: entry_def at_def nullish0_def)
  show ?thesis
    using compare_total_order[of undefined "[Some 1, Some 14, Some 13, Some 7, Some 2]"
        "[Some 2, Some 7, Some 2, Some 14]" "[Some 4, Some 5]"] ab bc e
    by (simp add: entry_def at_def nullish0_def)
qed

text \<open>
  Claim C7. On strength values (a category in 0..8 followed by tiebreak entries that are
  ranks 2..14) the comparator returns 0 only for identical tuples: two strength values that
  differ in length or in an entry compare nonzero.
\<close>

theorem compare_zero_only_identical:
  "isStrengthValue a \<Longrightarrow> isStrengthValue b \<Longrightarrow> (compareRankTuples a b = 0) = (a = b)"
  by (rule compare_zero_strength)

theorem compare_zero_only_identical_witness:
  "isStrengthValue [Some 4, Some 5] \<and> isStrengthValue [Some 4, Some 5, Some 14]
   \<and> compareRankTuples [Some 4, Some 5] [Some 4, Some 5, Some 14] \<noteq> 0"
proof -
  have a: "isStrengthValue [Some 4, Some 5]" by (simp add: isStrengthValue_def isRankEntry_def)
  have b: "isStrengthValue [Some 4, Some 5, Some 14]" by (simp add: isStrengthValue_def isRankEntry_def)
  show ?thesis using compare_zero_only_identical[OF a b] a b by simp
qed

section \<open>Parsing\<close>


lemma upperChar_other: "c \<notin> set lowerChars \<Longrightarrow> upperChar c = c"
proof -
  assume "c \<notin> set lowerChars"
  then have "map_of (zip lowerChars upperChars) c = None"
    by (simp add: map_of_eq_None_iff lowerChars_def upperChars_def)
  then show ?thesis by (simp add: upperChar_def)
qed

lemma lower_cases:
  assumes "c \<in> set lowerChars"
  shows "c = CHR ''a'' \<or> c = CHR ''b'' \<or> c = CHR ''c'' \<or> c = CHR ''d'' \<or> c = CHR ''e''
      \<or> c = CHR ''f'' \<or> c = CHR ''g'' \<or> c = CHR ''h'' \<or> c = CHR ''i'' \<or> c = CHR ''j''
      \<or> c = CHR ''k'' \<or> c = CHR ''l'' \<or> c = CHR ''m'' \<or> c = CHR ''n'' \<or> c = CHR ''o''
      \<or> c = CHR ''p'' \<or> c = CHR ''q'' \<or> c = CHR ''r'' \<or> c = CHR ''s'' \<or> c = CHR ''t''
      \<or> c = CHR ''u'' \<or> c = CHR ''v'' \<or> c = CHR ''w'' \<or> c = CHR ''x'' \<or> c = CHR ''y''
      \<or> c = CHR ''z''"
  using assms by (simp add: lowerChars_def)





lemma upperChar_ascii:
  assumes "(of_char c :: nat) < 128"
  shows "(of_char (upperChar c) :: nat) < 128"
proof (cases "c \<in> set lowerChars")
  case True
  from lower_cases[OF this] show ?thesis
    by (elim disjE) (simp_all add: upperChar_def lowerChars_def upperChars_def)
next
  case False
  then show ?thesis using assms by (simp add: upperChar_other)
qed

lemma toUpperCase_ascii: "isAscii t \<Longrightarrow> isAscii (map upperChar t)"
  by (simp add: isAscii_def list_all_iff upperChar_ascii)




subsection \<open>Trimming\<close>







subsection \<open>Tokens\<close>





subsection \<open>The loop over the tokens\<close>








text \<open>
  On a text that still holds a character beyond ASCII once trimmed the model of
  \<^verbatim>\<open>strToCard\<close> gives no answer, and \<^verbatim>\<open>parseCards\<close> fails on a wrong count before it looks
  at any token.
\<close>

lemma beyond_ascii:
  "strToCard [CHR ''A'', CHR 0xDF] = None
   \<and> parseCards [CHR ''A'', CHR ''h'', CHR 0xA0, CHR ''K'', CHR ''d''] 1 = Some None
   \<and> parseCards [CHR ''A'', CHR 0xDF, CHR '' '', CHR ''K'', CHR ''d''] 3 = Some None
   \<and> parseCards [CHR ''A'', CHR 0xDF, CHR '' '', CHR ''K'', CHR ''d''] 2 = None"
  by code_simp

section \<open>The enumeration of opponent holdings\<close>




















lemma record_sample_sum:
  "sum_list (map (\<lambda>(k, e). count e) (record_sample l smp bd))
     = sum_list (map (\<lambda>(k, e). count e) bd) + 1"
  by (induction bd) auto

lemma record_sample_keys:
  "map fst (record_sample l smp bd) = (if l \<in> set (map fst bd) then map fst bd else map fst bd @ [l])"
  by (induction bd) (auto simp: rev_image_eqI)

lemma record_sample_samples:
  "list_all (\<lambda>(k, e). length (samples e) \<le> min 3 (count e)) bd \<Longrightarrow>
   list_all (\<lambda>(k, e). length (samples e) \<le> min 3 (count e)) (record_sample l smp bd)"
  by (induction bd) auto

lemma record_sample_ok: "breakdownOk bd n \<Longrightarrow> breakdownOk (record_sample l smp bd) (n + 1)"
  unfolding breakdownOk_def
  using record_sample_sum[of l smp bd] record_sample_keys[of l smp bd]
    record_sample_samples[of bd l smp]
  by auto

lemma classify_ok: "tallyOk st \<Longrightarrow> tallyOk (classify flop hr st opp)"
  using record_sample_ok[of "t_betterBreakdown st" "t_better st"]
        record_sample_ok[of "t_worseBreakdown st" "t_worse st"]
  by (simp add: tallyOk_def classify_def Let_def)

lemma foldl_classify_ok: "tallyOk st \<Longrightarrow> tallyOk (foldl (classify flop hr) st ps)"
  by (induction ps arbitrary: st) (simp_all add: classify_ok)

text \<open>
  Claim C10. In the result of the analysis the per-category counts of the breakdown of
  better holdings add up to \<open>better\<close>, those of the breakdown of worse holdings add up to
  \<open>worse\<close>, and each category holds at most \<open>min 3 count\<close> samples. This holds for every
  input of the analysis.
\<close>

theorem analyze_breakdowns:
  "breakdownOk (betterBreakdown (analyzeSimple hero flop)) (better (analyzeSimple hero flop))
   \<and> breakdownOk (worseBreakdown (analyzeSimple hero flop)) (worse (analyzeSimple hero flop))"
proof -
  have "tallyOk \<lparr>t_better = 0, t_worse = 0, t_tie = 0, t_betterBreakdown = [], t_worseBreakdown = []\<rparr>"
    by (simp add: tallyOk_def breakdownOk_def)
  from foldl_classify_ok[OF this, of flop "evaluate (hero @ flop)" "oppPairs (remainingDeck hero flop)"]
  show ?thesis by (simp add: analyzeSimple_def Let_def tallyOk_def)
qed

section \<open>The parts of the evaluator\<close>

lemma bump_keys:
  "map fst (bump k m) = (if k \<in> set (map fst m) then map fst m else map fst m @ [k])"
  by (induction m) (auto simp: rev_image_eqI)

lemma bump_distinct: "distinct (map fst m) \<Longrightarrow> distinct (map fst (bump k m))"
  by (simp add: bump_keys)

lemma bump_map_of:
  "map_of (bump k m) = (map_of m)(k \<mapsto> (case map_of m k of None \<Rightarrow> 1 | Some n \<Rightarrow> n + 1))"
  by (induction m) (auto simp: fun_eq_iff)

lemma counts_fold:
  "distinct (map fst m) \<Longrightarrow>
   distinct (map fst (foldl (\<lambda>m c. bump (r c) m) m cards))
   \<and> (\<forall>k. map_of (foldl (\<lambda>m c. bump (r c) m) m cards) k =
        (case map_of m k of
           None \<Rightarrow> if cntRank cards k = 0 then None else Some (cntRank cards k)
         | Some n \<Rightarrow> Some (n + cntRank cards k)))"
proof (induction cards arbitrary: m)
  case Nil
  then show ?case by (auto simp: cntRank_def split: option.splits)
next
  case (Cons c cards)
  from Cons.IH[OF bump_distinct[OF Cons.prems], of "r c"] show ?case
    by (auto simp: bump_map_of cntRank_def split: option.splits)
qed

lemma cntRank_pos_iff: "(cntRank cards k \<noteq> 0) = (k \<in> r ` set cards)"
  by (auto simp: cntRank_def filter_empty_conv)

lemma cntRank_nonneg: "0 \<le> cntRank cards k"
  by (simp add: cntRank_def)

lemma counts_set:
  "set (foldl (\<lambda>m c. bump (r c) m) [] cards) = {(k, cntRank cards k) | k. k \<in> r ` set cards}"
  and counts_distinct: "distinct (map fst (foldl (\<lambda>m c. bump (r c) m) [] cards))"
proof -
  let ?m = "foldl (\<lambda>m c. bump (r c) m) [] cards"
  from counts_fold[of "[]" cards]
  have d: "distinct (map fst ?m)"
    and mo: "\<And>k. map_of ?m k = (if cntRank cards k = 0 then None else Some (cntRank cards k))"
    by simp_all
  show "distinct (map fst ?m)" by (rule d)
  show "set ?m = {(k, cntRank cards k) | k. k \<in> r ` set cards}"
  proof (intro set_eqI iffI)
    fix x assume "x \<in> set ?m"
    then have "map_of ?m (fst x) = Some (snd x)"
      by (simp add: map_of_eq_Some_iff[OF d])
    then show "x \<in> {(k, cntRank cards k) | k. k \<in> r ` set cards}"
      using cntRank_pos_iff[of cards "fst x"] by (cases x) (auto simp: mo split: if_splits)
  next
    fix x assume "x \<in> {(k, cntRank cards k) | k. k \<in> r ` set cards}"
    then obtain k where x: "x = (k, cntRank cards k)" and "k \<in> r ` set cards" by blast
    then have "map_of ?m k = Some (cntRank cards k)" using cntRank_pos_iff[of cards k] by (simp add: mo)
    then show "x \<in> set ?m" using x by (simp add: map_of_SomeD)
  qed
qed

lemma countsByRank_set:
  "set (countsByRank cards) = {(k, cntRank cards k) | k. k \<in> r ` set cards}"
  by (simp add: countsByRank_def counts_set)

lemma countsByRank_distinct: "distinct (map fst (countsByRank cards))"
proof -
  let ?m = "foldl (\<lambda>m c. bump (r c) m) [] cards"
  have "distinct ?m" using counts_distinct[of cards] by (rule distinct_map[THEN iffD1, THEN conjunct1])
  then have "distinct (countsByRank cards)" by (simp add: countsByRank_def)
  moreover have "inj_on fst (set (countsByRank cards))"
    using counts_distinct[of cards] by (simp add: countsByRank_def distinct_map)
  ultimately show ?thesis by (simp add: distinct_map)
qed

lemma rws_set: "set (rws cards n) = {k \<in> r ` set cards. cntRank cards k = n}"
  by (auto simp: rws_def ranksWithCount_def sortDesc_def countsByRank_set image_iff)

lemma rws_distinct: "distinct (rws cards n)"
proof -
  have "distinct (map fst (filter (\<lambda>(rk, c). c = n) (countsByRank cards)))"
    using countsByRank_distinct[of cards] by (rule distinct_map_filter)
  then show ?thesis by (simp add: rws_def ranksWithCount_def sortDesc_def)
qed

lemma rws_sorted: "sorted (rev (rws cards n))"
  by (simp add: rws_def ranksWithCount_def sortDesc_def)

lemma groupPush_keys:
  "map fst (groupPush c m) = (if s c \<in> set (map fst m) then map fst m else map fst m @ [s c])"
  by (induction m) (auto simp: rev_image_eqI)

lemma groupPush_map_of:
  "map_of (groupPush c m) = (map_of m)(s c \<mapsto> (case map_of m (s c) of None \<Rightarrow> [c] | Some cs \<Rightarrow> cs @ [c]))"
  by (induction m) (auto simp: fun_eq_iff)

lemma groups_fold:
  "distinct (map fst m) \<Longrightarrow>
   distinct (map fst (foldl (\<lambda>m c. groupPush c m) m cards))
   \<and> (\<forall>t. map_of (foldl (\<lambda>m c. groupPush c m) m cards) t =
        (case map_of m t of
           None \<Rightarrow> if suitCards cards t = [] then None else Some (suitCards cards t)
         | Some cs \<Rightarrow> Some (cs @ suitCards cards t)))"
proof (induction cards arbitrary: m)
  case Nil
  then show ?case by (auto simp: suitCards_def split: option.splits)
next
  case (Cons c cards)
  have d: "distinct (map fst (groupPush c m))" using Cons.prems by (simp add: groupPush_keys)
  from Cons.IH[OF d] show ?case
    by (auto simp: groupPush_map_of suitCards_def split: option.splits)
qed

lemma suitGroups_distinct: "distinct (map fst (suitGroups cards))"
  using groups_fold[of "[]" cards] by (simp add: suitGroups_def)

lemma suitGroups_map_of:
  "map_of (suitGroups cards) t = (if suitCards cards t = [] then None else Some (suitCards cards t))"
  using groups_fold[of "[]" cards] by (simp add: suitGroups_def)

lemma suitGroups_mem:
  "((t, cs) \<in> set (suitGroups cards)) = (cs = suitCards cards t \<and> cs \<noteq> [])"
  using map_of_eq_Some_iff[OF suitGroups_distinct, of cards t cs]
  by (auto simp: suitGroups_map_of split: if_splits)

lemma straightFlushHigh_None:
  "(straightFlushHigh m = None) =
     (\<forall>(k, cs) \<in> set m. \<not> (length cs \<ge> 5 \<and> bestStraightHigh (remdups (map r cs)) > 0))"
  by (induction m) (auto split: if_splits)

lemma straightFlushHigh_Some:
  "straightFlushHigh m = Some h \<Longrightarrow>
     \<exists>(k, cs) \<in> set m. length cs \<ge> 5 \<and> bestStraightHigh (remdups (map r cs)) = h \<and> h > 0"
  by (induction m) (auto split: if_splits)

lemma flushGroup_None: "(flushGroup m = None) = (\<forall>(k, cs) \<in> set m. \<not> length cs \<ge> 5)"
  by (induction m) (auto split: if_splits)

lemma flushGroup_Some: "flushGroup m = Some cs \<Longrightarrow> \<exists>k. (k, cs) \<in> set m \<and> length cs \<ge> 5"
  by (induction m) (auto split: if_splits)

lemma straightHighs_subset: "straightHighs P \<subseteq> P"
  by (auto simp: straightHighs_def)

lemma straightHighs_finite: "finite P \<Longrightarrow> finite (straightHighs P)"
  using straightHighs_subset by (rule finite_subset)

lemma straightHighs_insert_top:
  assumes "\<forall>p\<in>P. p < x"
  shows "straightHighs (insert x P) = straightHighs P \<union> (if {x - 4 .. x - 1} \<subseteq> P then {x} else {})"
proof (intro set_eqI iffI)
  fix h assume h: "h \<in> straightHighs (insert x P)"
  then have sub: "{h - 4 .. h} \<subseteq> insert x P" by (simp add: straightHighs_def)
  show "h \<in> straightHighs P \<union> (if {x - 4 .. x - 1} \<subseteq> P then {x} else {})"
  proof (cases "x \<in> {h - 4 .. h}")
    case False
    with sub have "{h - 4 .. h} \<subseteq> P" by auto
    then show ?thesis by (simp add: straightHighs_def)
  next
    case True
    have "h \<in> {h - 4 .. h}" by simp
    with sub have "h \<in> insert x P" by blast
    then have "h \<le> x" using assms by auto
    with True have hx: "h = x" by simp
    have "{x - 4 .. x - 1} \<subseteq> P"
    proof
      fix k assume "k \<in> {x - 4 .. x - 1}"
      then have "k \<in> {h - 4 .. h}" "k \<noteq> x" using hx by auto
      with sub show "k \<in> P" by auto
    qed
    with hx show ?thesis by simp
  qed
next
  fix h assume "h \<in> straightHighs P \<union> (if {x - 4 .. x - 1} \<subseteq> P then {x} else {})"
  then consider "h \<in> straightHighs P" | "{x - 4 .. x - 1} \<subseteq> P" "h = x"
    by (auto split: if_splits)
  then show "h \<in> straightHighs (insert x P)"
  proof cases
    case 1
    then show ?thesis by (auto simp: straightHighs_def)
  next
    case 2
    have "{x - 4 .. x} \<subseteq> insert x P"
    proof
      fix k assume "k \<in> {x - 4 .. x}"
      then have "k = x \<or> k \<in> {x - 4 .. x - 1}" by auto
      with 2(1) show "k \<in> insert x P" by auto
    qed
    with 2(2) show ?thesis by (simp add: straightHighs_def)
  qed
qed

lemma Max_insert0_un:
  assumes "finite A"
  shows "Max (insert 0 (A \<union> {x})) = max (Max (insert 0 A)) (x::int)"
proof -
  have "insert 0 (A \<union> {x}) = insert x (insert 0 A)" by auto
  then show ?thesis using assms by (simp add: max.commute)
qed

lemma straightLoop_inv:
  assumes "sorted (prev # xs)" and "finite P" and "prev \<in> P" and "\<forall>p\<in>P. p \<le> prev"
    and "1 \<le> run" and "{prev - int run + 1 .. prev} \<subseteq> P" and "prev - int run \<notin> P"
    and "best = Max (insert 0 (straightHighs P))"
  shows "straightLoop prev run best xs = Max (insert 0 (straightHighs (P \<union> set xs)))"
  using assms
proof (induction xs arbitrary: prev run best P)
  case Nil
  then show ?case by simp
next
  case (Cons x xs)
  have le: "prev \<le> x" and srt: "sorted (x # xs)" using Cons.prems(1) by auto
  show ?case
  proof (cases "x = prev")
    case True
    have "straightLoop x run best xs = Max (insert 0 (straightHighs (P \<union> set xs)))"
      using Cons.prems srt True by (intro Cons.IH) auto
    moreover have "P \<union> set (x # xs) = P \<union> set xs" using True Cons.prems(3) by auto
    ultimately show ?thesis using True by simp
  next
    case False
    with le have lt: "prev < x" by simp
    then have top: "\<forall>p\<in>P. p < x" using Cons.prems(4) by auto
    have ins: "straightHighs (insert x P)
        = straightHighs P \<union> (if {x - 4 .. x - 1} \<subseteq> P then {x} else {})"
      using top by (rule straightHighs_insert_top)
    have fin: "finite (insert x P)" using Cons.prems(2) by simp
    have un: "insert x P \<union> set xs = P \<union> set (x # xs)" by auto
    show ?thesis
    proof (cases "x = prev + 1")
      case succ: True
      have run_iff: "({x - 4 .. x - 1} \<subseteq> P) = (5 \<le> run + 1)"
      proof
        assume sub: "{x - 4 .. x - 1} \<subseteq> P"
        show "5 \<le> run + 1"
        proof (rule ccontr)
          assume "\<not> 5 \<le> run + 1"
          then have "prev - int run \<in> {x - 4 .. x - 1}" using succ Cons.prems(5) by auto
          with sub Cons.prems(7) show False by auto
        qed
      next
        assume "5 \<le> run + 1"
        then have "{x - 4 .. x - 1} \<subseteq> {prev - int run + 1 .. prev}" using succ by auto
        with Cons.prems(6) show "{x - 4 .. x - 1} \<subseteq> P" by blast
      qed
      let ?best = "if run + 1 \<ge> 5 then max best x else best"
      have best': "?best = Max (insert 0 (straightHighs (insert x P)))"
      proof (cases "5 \<le> run + 1")
        case True
        then have "straightHighs (insert x P) = straightHighs P \<union> {x}"
          using ins run_iff by simp
        then show ?thesis
          using True Cons.prems(8) Max_insert0_un[OF straightHighs_finite[OF Cons.prems(2)], of x]
          by simp
      next
        case False
        then have "straightHighs (insert x P) = straightHighs P" using ins run_iff by simp
        then show ?thesis using False Cons.prems(8) by simp
      qed
      have r1: "{x - int (run + 1) + 1 .. x} \<subseteq> insert x P"
      proof
        fix k assume "k \<in> {x - int (run + 1) + 1 .. x}"
        then have "k = x \<or> k \<in> {prev - int run + 1 .. prev}" using succ by auto
        with Cons.prems(6) show "k \<in> insert x P" by auto
      qed
      have r2: "x - int (run + 1) \<notin> insert x P"
        using succ Cons.prems(7) by (auto simp: algebra_simps)
      have "straightLoop prev run best (x # xs) = straightLoop x (run + 1) ?best xs"
        using succ by simp
      also have "\<dots> = Max (insert 0 (straightHighs (insert x P \<union> set xs)))"
        using srt fin top best' r1 r2 by (intro Cons.IH) auto
      finally show ?thesis by (simp only: un)
    next
      case gap: False
      with lt have gt: "prev + 1 < x" by simp
      have "x - 1 \<notin> P" using Cons.prems(4) gt by auto
      moreover have "x - 1 \<in> {x - 4 .. x - 1}" by simp
      ultimately have "\<not> {x - 4 .. x - 1} \<subseteq> P" by blast
      then have same: "straightHighs (insert x P) = straightHighs P" using ins by simp
      have "straightLoop prev run best (x # xs) = straightLoop x 1 best xs"
        using gap False by simp
      also have "\<dots> = Max (insert 0 (straightHighs (insert x P \<union> set xs)))"
        using srt fin top same Cons.prems(8) \<open>x - 1 \<notin> P\<close> by (intro Cons.IH) auto
      finally show ?thesis by (simp only: un)
    qed
  qed
qed

lemma straightHighs_single: "straightHighs {a} = {}"
proof -
  have "\<not> {h - 4 .. h} \<subseteq> {a}" for h
  proof
    assume sub: "{h - 4 .. h} \<subseteq> {a}"
    have "h \<in> {h - 4 .. h}" "h - 1 \<in> {h - 4 .. h}" by simp_all
    with sub have "h = a" "h - 1 = a" by blast+
    then show False by simp
  qed
  then show ?thesis by (simp add: straightHighs_def)
qed

lemma bestStraightHigh_eq:
  assumes "\<forall>x\<in>set ranks. 1 \<le> x"
  shows "bestStraightHigh ranks = Max (insert 0 (straightHighs (aceLow (set ranks))))"
proof -
  let ?arr0 = "sort (remdups ranks)"
  have set0: "set ?arr0 = set ranks" by simp
  show ?thesis
  proof (cases "14 \<in> set ranks")
    case True
    have srt: "sorted (1 # ?arr0)" using assms by simp
    have "straightLoop 1 1 0 ?arr0 = Max (insert 0 (straightHighs ({1} \<union> set ?arr0)))"
      using srt by (intro straightLoop_inv) (auto simp: straightHighs_single)
    then show ?thesis using True by (simp add: bestStraightHigh_def aceLow_def)
  next
    case F14: False
    show ?thesis
    proof (cases ?arr0)
      case Nil
      then have "set ranks = {}" using set0 by simp
      then show ?thesis using Nil
        by (simp add: bestStraightHigh_def aceLow_def straightHighs_def)
    next
      case (Cons a as)
      have srt: "sorted (a # as)" using Cons sorted_sort[of "remdups ranks"] by simp
      have "straightLoop a 1 0 as = Max (insert 0 (straightHighs ({a} \<union> set as)))"
        using srt by (intro straightLoop_inv) (auto simp: straightHighs_single)
      moreover have "{a} \<union> set as = set ranks" using Cons set0 by (metis insert_is_Un list.simps(15))
      ultimately show ?thesis using F14 Cons by (simp add: bestStraightHigh_def aceLow_def)
    qed
  qed
qed

lemma evaluate_unfold:
  "evaluate cards =
     (case straightFlushHigh (suitGroups cards) of
        Some high \<Rightarrow> [Some 8, Some high]
      | None \<Rightarrow>
      if rws cards 4 \<noteq> [] then
        [Some 7, Some (rws cards 4 ! 0),
         atNum (topNDesc (map r (filter (\<lambda>c. r c \<noteq> rws cards 4 ! 0) cards)) 1) 0]
      else if length (rws cards 3) \<ge> 2 \<or> (length (rws cards 3) \<ge> 1 \<and> length (rws cards 2) \<ge> 1) then
        [Some 6, Some (rws cards 3 ! 0),
         Some (if length (rws cards 3) \<ge> 2 then rws cards 3 ! 1 else rws cards 2 ! 0)]
      else
      case flushGroup (suitGroups cards) of
        Some cs \<Rightarrow> Some 5 # map Some (topNDesc (map r cs) 5)
      | None \<Rightarrow>
      if bestStraightHigh (sort (remdups (map r cards))) > 0 then
        [Some 4, Some (bestStraightHigh (sort (remdups (map r cards))))]
      else if rws cards 3 \<noteq> [] then
        Some 3 # Some (rws cards 3 ! 0)
          # map Some (topNDesc (map r (filter (\<lambda>c. r c \<noteq> rws cards 3 ! 0) cards)) 2)
      else if length (rws cards 2) \<ge> 2 then
        [Some 2, Some (rws cards 2 ! 0), Some (rws cards 2 ! 1),
         atNum (topNDesc (map r (filter (\<lambda>c. r c \<noteq> rws cards 2 ! 0 \<and> r c \<noteq> rws cards 2 ! 1) cards)) 1) 0]
      else if length (rws cards 2) = 1 then
        Some 1 # Some (rws cards 2 ! 0)
          # map Some (topNDesc (map r (filter (\<lambda>c. r c \<noteq> rws cards 2 ! 0) cards)) 3)
      else Some 0 # map Some (topNDesc (map r cards) 5))"
  by (simp add: evaluate_def rws_def Let_def split: option.splits)

lemma evaluate_category:
  "\<exists>cat rest. evaluate cards = Some cat # rest \<and> 0 \<le> cat \<and> cat \<le> 8"
  by (simp add: evaluate_unfold split: option.splits)

section \<open>Input validation\<close>

text \<open>
  Claim C4, as the code has it. \<^verbatim>\<open>evaluate\<close> does not check its input: for every list of
  cards, whatever its length and with or without repeated cards, it returns a tuple whose
  first entry is a category in 0..8. It has no failing path.
\<close>

theorem evaluate_no_validation:
  "\<exists>cat rest. evaluate cards = Some cat # rest \<and> 0 \<le> cat \<and> cat \<le> 8"
  by (rule evaluate_category)

text \<open>
  \<^verbatim>\<open>evaluate\<close> returns a strength value for four cards, for five cards of which two are the
  same card, and for eight cards.
\<close>

theorem evaluate_invalid_input_counterexample:
  "evaluate [\<lparr>r = 14, s = ''c''\<rparr>, \<lparr>r = 13, s = ''d''\<rparr>, \<lparr>r = 7, s = ''h''\<rparr>, \<lparr>r = 2, s = ''s''\<rparr>]
     = [Some 0, Some 14, Some 13, Some 7, Some 2]
   \<and> evaluate [\<lparr>r = 14, s = ''c''\<rparr>, \<lparr>r = 14, s = ''c''\<rparr>, \<lparr>r = 13, s = ''d''\<rparr>, \<lparr>r = 7, s = ''h''\<rparr>,
        \<lparr>r = 2, s = ''s''\<rparr>]
     = [Some 1, Some 14, Some 13, Some 7, Some 2]
   \<and> evaluate [\<lparr>r = 14, s = ''c''\<rparr>, \<lparr>r = 13, s = ''d''\<rparr>, \<lparr>r = 7, s = ''h''\<rparr>, \<lparr>r = 2, s = ''s''\<rparr>,
        \<lparr>r = 3, s = ''s''\<rparr>, \<lparr>r = 9, s = ''h''\<rparr>, \<lparr>r = 10, s = ''d''\<rparr>, \<lparr>r = 12, s = ''c''\<rparr>]
     = [Some 0, Some 14, Some 13, Some 12, Some 10, Some 9]"
  by code_simp

section \<open>Straights\<close>

lemma hasFlush_iff: "hasFlush cs = (\<exists>t. 5 \<le> length (suitCards cs t))"
proof
  assume "hasFlush cs"
  then show "\<exists>t. 5 \<le> length (suitCards cs t)" by (auto simp: hasFlush_def list_ex_iff)
next
  assume "\<exists>t. 5 \<le> length (suitCards cs t)"
  then obtain t where t: "5 \<le> length (suitCards cs t)" by blast
  then have "suitCards cs t \<noteq> []" by auto
  then have "t \<in> s ` set cs" by (auto simp: suitCards_def filter_empty_conv)
  with t show "hasFlush cs" by (auto simp: hasFlush_def list_ex_iff)
qed

lemma hasQuads_iff: "hasQuads cs = (\<exists>k. 4 \<le> cntRank cs k)"
proof
  assume "hasQuads cs"
  then show "\<exists>k. 4 \<le> cntRank cs k" by (auto simp: hasQuads_def list_ex_iff)
next
  assume "\<exists>k. 4 \<le> cntRank cs k"
  then obtain k where k: "4 \<le> cntRank cs k" by blast
  then have "cntRank cs k \<noteq> 0" by simp
  then have "k \<in> r ` set cs" by (simp add: cntRank_pos_iff)
  with k show "hasQuads cs" by (auto simp: hasQuads_def list_ex_iff)
qed

lemma hasFullHouse_iff:
  "hasFullHouse cs = (\<exists>t p. t \<noteq> p \<and> 3 \<le> cntRank cs t \<and> 2 \<le> cntRank cs p)"
proof
  assume "hasFullHouse cs"
  then show "\<exists>t p. t \<noteq> p \<and> 3 \<le> cntRank cs t \<and> 2 \<le> cntRank cs p"
    by (auto simp: hasFullHouse_def list_ex_iff)
next
  assume "\<exists>t p. t \<noteq> p \<and> 3 \<le> cntRank cs t \<and> 2 \<le> cntRank cs p"
  then obtain t p where tp: "t \<noteq> p" "3 \<le> cntRank cs t" "2 \<le> cntRank cs p" by blast
  then have "cntRank cs t \<noteq> 0" "cntRank cs p \<noteq> 0" by simp_all
  then have "t \<in> r ` set cs" "p \<in> r ` set cs" by (simp_all add: cntRank_pos_iff)
  with tp show "hasFullHouse cs" by (auto simp: hasFullHouse_def list_ex_iff)
qed

lemma no_flush_groups:
  assumes "\<not> hasFlush cs"
  shows "straightFlushHigh (suitGroups cs) = None" and "flushGroup (suitGroups cs) = None"
proof -
  have small: "\<not> 5 \<le> length g" if "(t, g) \<in> set (suitGroups cs)" for t g
    using that assms by (auto simp: suitGroups_mem hasFlush_iff)
  show "straightFlushHigh (suitGroups cs) = None"
    unfolding straightFlushHigh_None using small by blast
  show "flushGroup (suitGroups cs) = None"
    unfolding flushGroup_None using small by blast
qed

lemma no_quads_rws: "\<not> hasQuads cs \<Longrightarrow> rws cs 4 = []"
proof -
  assume "\<not> hasQuads cs"
  then have no: "\<And>k. \<not> 4 \<le> cntRank cs k" unfolding hasQuads_iff by blast
  have "cntRank cs k \<noteq> 4" for k using no[of k] by simp
  then have "set (rws cs 4) = {}" by (auto simp: rws_set)
  then show ?thesis by simp
qed

lemma two_in_list: "2 \<le> length xs \<Longrightarrow> distinct xs \<Longrightarrow> xs ! 0 \<in> set xs \<and> xs ! 1 \<in> set xs \<and> xs ! 0 \<noteq> xs ! 1"
  by (cases xs; cases "tl xs") auto

lemma no_full_house_rws:
  assumes "\<not> hasFullHouse cs"
  shows "\<not> (length (rws cs 3) \<ge> 2 \<or> (length (rws cs 3) \<ge> 1 \<and> length (rws cs 2) \<ge> 1))"
proof
  assume "length (rws cs 3) \<ge> 2 \<or> (length (rws cs 3) \<ge> 1 \<and> length (rws cs 2) \<ge> 1)"
  then show False
  proof
    assume "2 \<le> length (rws cs 3)"
    from two_in_list[OF this rws_distinct]
    have "cntRank cs (rws cs 3 ! 0) = 3" "cntRank cs (rws cs 3 ! 1) = 3" "rws cs 3 ! 0 \<noteq> rws cs 3 ! 1"
      by (auto simp: rws_set)
    then have "hasFullHouse cs" unfolding hasFullHouse_iff
      by (intro exI[of _ "rws cs 3 ! 0"] exI[of _ "rws cs 3 ! 1"]) simp
    with assms show False by simp
  next
    assume "length (rws cs 3) \<ge> 1 \<and> length (rws cs 2) \<ge> 1"
    then have "rws cs 3 ! 0 \<in> set (rws cs 3)" "rws cs 2 ! 0 \<in> set (rws cs 2)"
      by (auto intro!: nth_mem)
    then have "cntRank cs (rws cs 3 ! 0) = 3" "cntRank cs (rws cs 2 ! 0) = 2"
      by (auto simp: rws_set)
    then have "hasFullHouse cs" unfolding hasFullHouse_iff
      by (intro exI[of _ "rws cs 3 ! 0"] exI[of _ "rws cs 2 ! 0"]) auto
    with assms show False by simp
  qed
qed

lemma aceLow_finite: "finite S \<Longrightarrow> finite (aceLow S)"
  by (simp add: aceLow_def)

lemma straightHighs_ge5:
  assumes "\<forall>x\<in>S. 1 \<le> x" and "h \<in> straightHighs (aceLow S)"
  shows "5 \<le> h"
proof -
  have "h - 4 \<in> {h - 4 .. h}" by simp
  with assms(2) have "h - 4 \<in> aceLow S" by (auto simp: straightHighs_def)
  then have "1 \<le> h - 4" using assms(1) by (auto simp: aceLow_def split: if_splits)
  then show ?thesis by simp
qed

lemma bestStraightHigh_ranks:
  assumes "\<forall>x\<in>set ranks. 1 \<le> x"
  shows "(0 < bestStraightHigh ranks) = (straightHighs (aceLow (set ranks)) \<noteq> {})"
    and "straightHighs (aceLow (set ranks)) \<noteq> {} \<Longrightarrow>
         bestStraightHigh ranks = Max (straightHighs (aceLow (set ranks)))"
proof -
  let ?H = "straightHighs (aceLow (set ranks))"
  have fin: "finite ?H" by (simp add: straightHighs_finite aceLow_finite)
  have pos: "\<And>h. h \<in> ?H \<Longrightarrow> 5 \<le> h" using assms by (rule straightHighs_ge5)
  have eq: "bestStraightHigh ranks = Max (insert 0 ?H)" using assms by (rule bestStraightHigh_eq)
  show ne: "bestStraightHigh ranks = Max ?H" if "?H \<noteq> {}"
  proof -
    have "5 \<le> Max ?H" using pos Max_in[OF fin that] by blast
    then show ?thesis using eq fin that by simp
  qed
  show "(0 < bestStraightHigh ranks) = (?H \<noteq> {})"
  proof (cases "?H = {}")
    case True
    then show ?thesis using eq by simp
  next
    case False
    have "5 \<le> Max ?H" using pos Max_in[OF fin False] by blast
    then show ?thesis using ne[OF False] False by simp
  qed
qed

text \<open>
  Claim C8. For cards of the deck that hold no five cards of one suit (so neither a flush
  nor a straight flush), no four cards of one rank and no full house, \<^verbatim>\<open>evaluate\<close> returns
  category 4 exactly when the ranks, with the ace also counted as 1, contain five
  consecutive values, and then the result is category 4 with the single tiebreak entry the
  highest rank that ends such a run. The witness is a wheel, whose tiebreak is 5.
\<close>

theorem straight_detected:
  assumes "list_all validCard cs" and "\<not> hasFlush cs" and "\<not> hasQuads cs" and "\<not> hasFullHouse cs"
  shows "((\<exists>rest. evaluate cs = Some 4 # rest) = (straightHighs (aceLow (r ` set cs)) \<noteq> {}))
    \<and> (straightHighs (aceLow (r ` set cs)) \<noteq> {} \<longrightarrow>
         evaluate cs = [Some 4, Some (Max (straightHighs (aceLow (r ` set cs))))])"
proof -
  let ?rs = "sort (remdups (map r cs))"
  have set_rs: "set ?rs = r ` set cs" by simp
  have valid: "\<forall>x\<in>set ?rs. 1 \<le> x"
    using assms(1) by (auto simp: list_all_iff validCard_def)
  note bs = bestStraightHigh_ranks[OF valid, unfolded set_rs]
  have ev: "evaluate cs =
     (if bestStraightHigh ?rs > 0 then [Some 4, Some (bestStraightHigh ?rs)]
      else if rws cs 3 \<noteq> [] then
        Some 3 # Some (rws cs 3 ! 0)
          # map Some (topNDesc (map r (filter (\<lambda>c. r c \<noteq> rws cs 3 ! 0) cs)) 2)
      else if length (rws cs 2) \<ge> 2 then
        [Some 2, Some (rws cs 2 ! 0), Some (rws cs 2 ! 1),
         atNum (topNDesc (map r (filter (\<lambda>c. r c \<noteq> rws cs 2 ! 0 \<and> r c \<noteq> rws cs 2 ! 1) cs)) 1) 0]
      else if length (rws cs 2) = 1 then
        Some 1 # Some (rws cs 2 ! 0)
          # map Some (topNDesc (map r (filter (\<lambda>c. r c \<noteq> rws cs 2 ! 0) cs)) 3)
      else Some 0 # map Some (topNDesc (map r cs) 5))"
  proof -
    have fh: "(length (rws cs 3) \<ge> 2 \<or> (length (rws cs 3) \<ge> 1 \<and> length (rws cs 2) \<ge> 1)) = False"
      using no_full_house_rws[OF assms(4)] by simp
    have q4: "(rws cs 4 \<noteq> []) = False" using no_quads_rws[OF assms(3)] by simp
    show ?thesis
      unfolding evaluate_unfold[of cs] no_flush_groups[OF assms(2)] q4 fh by simp
  qed
  show ?thesis
  proof (cases "straightHighs (aceLow (r ` set cs)) = {}")
    case True
    then have "\<not> 0 < bestStraightHigh ?rs" using bs(1) by simp
    then show ?thesis using True by (simp add: ev)
  next
    case False
    then have "0 < bestStraightHigh ?rs" using bs(1) by simp
    then show ?thesis using False bs(2)[OF False] by (simp add: ev)
  qed
qed

theorem straight_detected_witness:
  "list_all validCard [\<lparr>r = 14, s = ''c''\<rparr>, \<lparr>r = 2, s = ''d''\<rparr>, \<lparr>r = 3, s = ''h''\<rparr>, \<lparr>r = 4, s = ''s''\<rparr>,
      \<lparr>r = 5, s = ''c''\<rparr>, \<lparr>r = 9, s = ''d''\<rparr>, \<lparr>r = 13, s = ''h''\<rparr>]
   \<and> \<not> hasFlush [\<lparr>r = 14, s = ''c''\<rparr>, \<lparr>r = 2, s = ''d''\<rparr>, \<lparr>r = 3, s = ''h''\<rparr>, \<lparr>r = 4, s = ''s''\<rparr>,
      \<lparr>r = 5, s = ''c''\<rparr>, \<lparr>r = 9, s = ''d''\<rparr>, \<lparr>r = 13, s = ''h''\<rparr>]
   \<and> \<not> hasQuads [\<lparr>r = 14, s = ''c''\<rparr>, \<lparr>r = 2, s = ''d''\<rparr>, \<lparr>r = 3, s = ''h''\<rparr>, \<lparr>r = 4, s = ''s''\<rparr>,
      \<lparr>r = 5, s = ''c''\<rparr>, \<lparr>r = 9, s = ''d''\<rparr>, \<lparr>r = 13, s = ''h''\<rparr>]
   \<and> \<not> hasFullHouse [\<lparr>r = 14, s = ''c''\<rparr>, \<lparr>r = 2, s = ''d''\<rparr>, \<lparr>r = 3, s = ''h''\<rparr>, \<lparr>r = 4, s = ''s''\<rparr>,
      \<lparr>r = 5, s = ''c''\<rparr>, \<lparr>r = 9, s = ''d''\<rparr>, \<lparr>r = 13, s = ''h''\<rparr>]
   \<and> evaluate [\<lparr>r = 14, s = ''c''\<rparr>, \<lparr>r = 2, s = ''d''\<rparr>, \<lparr>r = 3, s = ''h''\<rparr>, \<lparr>r = 4, s = ''s''\<rparr>,
      \<lparr>r = 5, s = ''c''\<rparr>, \<lparr>r = 9, s = ''d''\<rparr>, \<lparr>r = 13, s = ''h''\<rparr>] = [Some 4, Some 5]
   \<and> straightHighs (aceLow (r ` set [\<lparr>r = 14, s = ''c''\<rparr>, \<lparr>r = 2, s = ''d''\<rparr>, \<lparr>r = 3, s = ''h''\<rparr>,
      \<lparr>r = 4, s = ''s''\<rparr>, \<lparr>r = 5, s = ''c''\<rparr>, \<lparr>r = 9, s = ''d''\<rparr>, \<lparr>r = 13, s = ''h''\<rparr>])) \<noteq> {}"
proof -
  let ?cs = "[\<lparr>r = 14, s = ''c''\<rparr>, \<lparr>r = 2, s = ''d''\<rparr>, \<lparr>r = 3, s = ''h''\<rparr>, \<lparr>r = 4, s = ''s''\<rparr>,
      \<lparr>r = 5, s = ''c''\<rparr>, \<lparr>r = 9, s = ''d''\<rparr>, \<lparr>r = 13, s = ''h''\<rparr>]"
  have v: "list_all validCard ?cs" by code_simp
  have f: "\<not> hasFlush ?cs" by code_simp
  have q: "\<not> hasQuads ?cs" by code_simp
  have h: "\<not> hasFullHouse ?cs" by code_simp
  have e: "evaluate ?cs = [Some 4, Some 5]" by code_simp
  from straight_detected[OF v f q h] e v f q h show ?thesis by auto
qed

section \<open>The evaluator against the best five-card hand\<close>

subsection \<open>Comparing explicit tuples and sets of cards\<close>

lemma entry_Cons_0: "entry (x # xs) 0 = nullish0 x"
  by (simp add: entry_def at_def)

lemma entry_Cons_Suc: "entry (x # xs) (Suc i) = entry xs i"
  by (simp add: entry_def at_def)

lemma compare_Cons:
  "compareRankTuples (x # xs) (y # ys) =
     (if nullish0 x \<noteq> nullish0 y then nullish0 x - nullish0 y else compareRankTuples xs ys)"
proof (cases "nullish0 x = nullish0 y")
  case False
  then have "compareRankTuples (x # xs) (y # ys) = entry (x # xs) 0 - entry (y # ys) 0"
    by (intro compare_first_diff) (simp_all add: entry_Cons_0)
  then show ?thesis using False by (simp add: entry_Cons_0)
next
  case True
  show ?thesis
  proof (cases "\<forall>j. entry xs j = entry ys j")
    case all: True
    have "\<forall>j. entry (x # xs) j = entry (y # ys) j"
    proof
      fix j show "entry (x # xs) j = entry (y # ys) j"
        using True all by (cases j) (simp_all add: entry_Cons_0 entry_Cons_Suc)
    qed
    then have "compareRankTuples (x # xs) (y # ys) = 0"
      using compare_zero_iff[of "x # xs" "y # ys"] by blast
    moreover have "compareRankTuples xs ys = 0"
      using all compare_zero_iff[of xs ys] by blast
    ultimately show ?thesis using True by simp
  next
    case False
    then obtain k0 where "entry xs k0 \<noteq> entry ys k0" by blast
    define k where "k = (LEAST k. entry xs k \<noteq> entry ys k)"
    have d: "entry xs k \<noteq> entry ys k" unfolding k_def using \<open>entry xs k0 \<noteq> entry ys k0\<close> by (rule LeastI)
    have e: "\<forall>j<k. entry xs j = entry ys j" unfolding k_def using not_less_Least by blast
    have "compareRankTuples xs ys = entry xs k - entry ys k" using d e by (rule compare_first_diff)
    moreover have "compareRankTuples (x # xs) (y # ys) = entry (x # xs) (Suc k) - entry (y # ys) (Suc k)"
    proof (rule compare_first_diff)
      show "entry (x # xs) (Suc k) \<noteq> entry (y # ys) (Suc k)" using d by (simp add: entry_Cons_Suc)
      show "\<forall>j<Suc k. entry (x # xs) j = entry (y # ys) j"
      proof (intro allI impI)
        fix j assume "j < Suc k"
        then show "entry (x # xs) j = entry (y # ys) j"
          using True e by (cases j) (simp_all add: entry_Cons_0 entry_Cons_Suc)
      qed
    qed
    ultimately show ?thesis using True by (simp add: entry_Cons_Suc)
  qed
qed

lemma compare_Nil: "compareRankTuples [] [] = 0"
  by (simp add: compare_zero_iff)

lemma compare_Some_Cons:
  "compareRankTuples (Some a # xs) (Some b # ys) = (if a \<noteq> b then a - b else compareRankTuples xs ys)"
  by (simp add: compare_Cons nullish0_def)

lemma compare_pointwise:
  "list_all2 (\<le>) ks ls \<Longrightarrow> compareRankTuples (map Some ks) (map Some ls) \<le> 0"
  by (induction ks ls rule: list_all2_induct) (auto simp: compare_Nil compare_Some_Cons)

lemma same_card: "r a = r b \<Longrightarrow> s a = s b \<Longrightarrow> a = (b::Card)"
  by (cases a, cases b) simp

lemma cntRank_nR: "distinct cs \<Longrightarrow> cntRank cs k = int (nR (set cs) k)"
proof -
  assume "distinct cs"
  then have "length (filter (\<lambda>c. r c = k) cs) = card ({c. r c = k} \<inter> set cs)"
    by (rule distinct_length_filter)
  moreover have "{c. r c = k} \<inter> set cs = {c \<in> set cs. r c = k}" by auto
  ultimately show ?thesis by (simp add: cntRank_def nR_def)
qed

lemma suitChars_card: "card (set suitChars) = 4"
  by (simp add: suitChars_def)

lemma nR_le4:
  assumes "finite H" and "\<forall>c\<in>H. validCard c"
  shows "nR H k \<le> 4"
proof -
  have inj: "inj_on s {c \<in> H. r c = k}"
    by (auto simp: inj_on_def intro: same_card)
  have sub: "s ` {c \<in> H. r c = k} \<subseteq> set suitChars"
    using assms(2) by (auto simp: validCard_def)
  have "card {c \<in> H. r c = k} \<le> card (set suitChars)"
    using inj sub by (intro card_inj_on_le[of s]) auto
  then show ?thesis by (simp add: nR_def suitChars_card)
qed

lemma nR_mono: "finite H' \<Longrightarrow> H \<subseteq> H' \<Longrightarrow> nR H k \<le> nR H' k"
  unfolding nR_def by (intro card_mono) auto

lemma nR_pos_iff: "finite H \<Longrightarrow> (0 < nR H k) = (k \<in> r ` H)"
  unfolding nR_def by (auto simp: card_gt_0_iff)

lemma nR_two:
  assumes "finite H" and "a \<noteq> b"
  shows "nR H a + nR H b \<le> card H"
proof -
  have "card ({c \<in> H. r c = a} \<union> {c \<in> H. r c = b}) = nR H a + nR H b"
    unfolding nR_def using assms by (intro card_Un_disjoint) auto
  moreover have "card ({c \<in> H. r c = a} \<union> {c \<in> H. r c = b}) \<le> card H"
    using assms(1) by (intro card_mono) auto
  ultimately show ?thesis by simp
qed

lemma nR_three:
  assumes "finite H" and "a \<noteq> b" and "a \<noteq> c" and "b \<noteq> c"
  shows "nR H a + nR H b + nR H c \<le> card H"
proof -
  have "card (({c' \<in> H. r c' = a} \<union> {c' \<in> H. r c' = b}) \<union> {c' \<in> H. r c' = c})
      = card ({c' \<in> H. r c' = a} \<union> {c' \<in> H. r c' = b}) + nR H c"
    unfolding nR_def using assms by (intro card_Un_disjoint) auto
  moreover have "card ({c' \<in> H. r c' = a} \<union> {c' \<in> H. r c' = b}) = nR H a + nR H b"
    unfolding nR_def using assms by (intro card_Un_disjoint) auto
  moreover have "card (({c' \<in> H. r c' = a} \<union> {c' \<in> H. r c' = b}) \<union> {c' \<in> H. r c' = c}) \<le> card H"
    using assms(1) by (intro card_mono) auto
  ultimately show ?thesis by simp
qed

lemma suit_inj: "inj_on r {c \<in> (H :: Card set). s c = t}"
proof (rule inj_onI)
  fix x y assume "x \<in> {c \<in> H. s c = t}" "y \<in> {c \<in> H. s c = t}" "r x = r y"
  then have "r x = r y" "s x = s y" by simp_all
  then show "x = y" by (rule same_card)
qed

lemma suitRanks_card: "card (suitRanks H t) = card {c \<in> H. s c = t}"
  unfolding suitRanks_def by (rule card_image[OF suit_inj])

lemma suitCards_set: "set (suitCards cs t) = {c \<in> set cs. s c = t}"
  by (auto simp: suitCards_def)

lemma suitCards_ranks: "set (map r (suitCards cs t)) = suitRanks (set cs) t"
  by (simp add: suitRanks_def suitCards_set)

lemma suitCards_length: "distinct cs \<Longrightarrow> length (suitCards cs t) = card (suitRanks (set cs) t)"
proof -
  assume "distinct cs"
  then have "distinct (suitCards cs t)" by (simp add: suitCards_def)
  then have "length (suitCards cs t) = card (set (suitCards cs t))" by (simp add: distinct_card)
  then show ?thesis by (simp add: suitRanks_card suitCards_set)
qed

lemma suitCards_distinct_ranks: "distinct cs \<Longrightarrow> distinct (map r (suitCards cs t))"
proof -
  assume "distinct cs"
  then have "distinct (suitCards cs t)" by (simp add: suitCards_def)
  moreover have "inj_on r (set (suitCards cs t))"
    unfolding suitCards_set by (rule suit_inj)
  ultimately show ?thesis by (simp add: distinct_map)
qed

lemma suit_two:
  assumes "finite H" and "t \<noteq> u"
  shows "card (suitRanks H t) + card (suitRanks H u) \<le> card H"
proof -
  have "card ({c \<in> H. s c = t} \<union> {c \<in> H. s c = u}) = card {c \<in> H. s c = t} + card {c \<in> H. s c = u}"
    using assms by (intro card_Un_disjoint) auto
  moreover have "card ({c \<in> H. s c = t} \<union> {c \<in> H. s c = u}) \<le> card H"
    using assms(1) by (intro card_mono) auto
  ultimately show ?thesis by (simp add: suitRanks_card)
qed

lemma suitRanks_mono: "H \<subseteq> H' \<Longrightarrow> suitRanks H t \<subseteq> suitRanks H' t"
  by (auto simp: suitRanks_def)

lemma suitRanks_subset: "suitRanks H t \<subseteq> r ` H"
  by (auto simp: suitRanks_def)

lemma aceLow_mono: "A \<subseteq> B \<Longrightarrow> aceLow A \<subseteq> aceLow B"
  by (auto simp: aceLow_def)

lemma straightHighs_mono: "A \<subseteq> B \<Longrightarrow> straightHighs A \<subseteq> straightHighs B"
  by (auto simp: straightHighs_def)

lemma achieves_mono:
  assumes "finite H'" and "H \<subseteq> H'" and "achieves H v"
  shows "achieves H' v"
  using assms(3)
proof cases
  case (straightFlush x t)
  have "x \<in> straightHighs (aceLow (suitRanks H' t))"
    using straightFlush(2) straightHighs_mono[OF aceLow_mono[OF suitRanks_mono[OF assms(2)]]]
    by blast
  then show ?thesis unfolding straightFlush(1) by (rule achieves.straightFlush)
next
  case (quads q k)
  show ?thesis unfolding quads(1)
    using quads(2-) nR_mono[OF assms(1,2), of q] assms(2)
    by (intro achieves.quads) auto
next
  case (fullHouse t p)
  show ?thesis unfolding fullHouse(1)
    using fullHouse(2-) nR_mono[OF assms(1,2), of t] nR_mono[OF assms(1,2), of p]
    by (intro achieves.fullHouse) auto
next
  case (flush ks t)
  show ?thesis unfolding flush(1)
    using flush(2-) suitRanks_mono[OF assms(2), of t]
    by (intro achieves.flush[where t = t]) auto
next
  case (straight x)
  have "r ` H \<subseteq> r ` H'" using assms(2) by auto
  then have "x \<in> straightHighs (aceLow (r ` H'))"
    using straight(2) straightHighs_mono[OF aceLow_mono] by blast
  then show ?thesis unfolding straight(1) by (rule achieves.straight)
next
  case (trips t ks)
  show ?thesis unfolding trips(1)
    using trips(2-) nR_mono[OF assms(1,2), of t] assms(2)
    by (intro achieves.trips) auto
next
  case (twoPair p1 p2 k)
  show ?thesis unfolding twoPair(1)
    using twoPair(2-) nR_mono[OF assms(1,2), of p1] nR_mono[OF assms(1,2), of p2] assms(2)
    by (intro achieves.twoPair) auto
next
  case (pair p ks)
  show ?thesis unfolding pair(1)
    using pair(2-) nR_mono[OF assms(1,2), of p] assms(2)
    by (intro achieves.pair) auto
next
  case (highCard ks)
  show ?thesis unfolding highCard(1)
    using highCard(2-) assms(2)
    by (intro achieves.highCard) auto
qed

lemma desc_iff: "sorted_wrt (>) (L :: int list) = (sorted (rev L) \<and> distinct L)"
proof -
  have "sorted_wrt (<) (rev L) = (sorted (rev L) \<and> distinct (rev L))"
    by (rule strict_sorted_iff)
  moreover have "sorted_wrt (<) (rev L) = sorted_wrt (>) L"
    by (simp add: sorted_wrt_rev)
  ultimately show ?thesis by simp
qed

lemma rws_desc: "sorted_wrt (>) (rws cs n)"
  by (simp add: desc_iff rws_sorted rws_distinct)

lemma sortDesc_desc: "distinct xs \<Longrightarrow> sorted_wrt (>) (sortDesc xs)"
  by (simp add: desc_iff sortDesc_def)

lemma sortDesc_set: "set (sortDesc xs) = set xs"
  by (simp add: sortDesc_def)

lemma sortDesc_length: "length (sortDesc xs) = length xs"
  by (simp add: sortDesc_def)

lemma desc_hd_max:
  assumes "sorted_wrt (>) (L :: int list)" and "x \<in> set L"
  shows "x \<le> L ! 0"
  using assms by (cases L) auto

lemma desc_second:
  assumes "sorted_wrt (>) (L :: int list)" and "x \<in> set L" and "x \<noteq> L ! 0"
  shows "2 \<le> length L \<and> x \<le> L ! 1"
proof -
  from assms obtain l L' where L: "L = l # L'" by (cases L) auto
  with assms have "x \<in> set L'" by auto
  then obtain l' L'' where L': "L' = l' # L''" by (cases L') auto
  with L assms \<open>x \<in> set L'\<close> show ?thesis by auto
qed

lemma desc_nth_mono:
  assumes "sorted_wrt (>) (L :: int list)" and "i \<le> j" and "j < length L"
  shows "L ! j \<le> L ! i"
proof (cases "i = j")
  case True
  then show ?thesis by simp
next
  case False
  with assms(2) have "i < j" by simp
  then have "L ! j < L ! i" using assms(1,3) by (simp add: sorted_wrt_iff_nth_less)
  then show ?thesis by simp
qed

lemma top_dominates:
  assumes "sorted_wrt (>) (L :: int list)" and "sorted_wrt (>) ks" and "set ks \<subseteq> set L"
  shows "length ks \<le> length L \<and> (\<forall>i < length ks. ks ! i \<le> L ! i)"
  using assms
proof (induction L arbitrary: ks)
  case Nil
  then show ?case by simp
next
  case (Cons l L')
  show ?case
  proof (cases ks)
    case Nil
    then show ?thesis by simp
  next
    case ks: (Cons k ks')
    have L'desc: "sorted_wrt (>) L'" and lmax: "\<forall>x\<in>set L'. x < l" using Cons.prems(1) by auto
    have ks'desc: "sorted_wrt (>) ks'" and kmax: "\<forall>x\<in>set ks'. x < k" using Cons.prems(2) ks by auto
    show ?thesis
    proof (cases "k = l")
      case True
      have "set ks' \<subseteq> set L'"
      proof
        fix x assume x: "x \<in> set ks'"
        then have "x < l" using kmax True by simp
        moreover have "x \<in> set (l # L')" using x Cons.prems(3) ks by auto
        ultimately show "x \<in> set L'" by auto
      qed
      from Cons.IH[OF L'desc ks'desc this]
      have len: "length ks' \<le> length L'" and nth: "\<forall>i < length ks'. ks' ! i \<le> L' ! i" by simp_all
      have "\<forall>i < length ks. ks ! i \<le> (l # L') ! i"
      proof (intro allI impI)
        fix i assume "i < length ks"
        then show "ks ! i \<le> (l # L') ! i"
          using nth True ks by (cases i) auto
      qed
      then show ?thesis using len ks by simp
    next
      case False
      have kin: "k \<in> set L'" using Cons.prems(3) ks False by auto
      then have "k < l" using lmax by simp
      have "set ks \<subseteq> set L'"
      proof
        fix x assume x: "x \<in> set ks"
        then have "x \<le> k" using kmax ks by auto
        then have "x \<noteq> l" using \<open>k < l\<close> by simp
        moreover have "x \<in> set (l # L')" using x Cons.prems(3) by auto
        ultimately show "x \<in> set L'" by auto
      qed
      from Cons.IH[OF L'desc Cons.prems(2) this]
      have len: "length ks \<le> length L'" and nth: "\<forall>i < length ks. ks ! i \<le> L' ! i" by simp_all
      have "\<forall>i < length ks. ks ! i \<le> (l # L') ! i"
      proof (intro allI impI)
        fix i assume i: "i < length ks"
        show "ks ! i \<le> (l # L') ! i"
        proof (cases i)
          case 0
          then show ?thesis using ks \<open>k < l\<close> by simp
        next
          case (Suc j)
          have "ks ! Suc j \<le> ks ! j"
            using Cons.prems(2) i Suc by (intro desc_nth_mono) auto
          also have "ks ! j \<le> L' ! j" using nth i Suc by simp
          finally show ?thesis using Suc by simp
        qed
      qed
      then show ?thesis using len by simp
    qed
  qed
qed

lemma top_dominates_compare:
  assumes "sorted_wrt (>) (L :: int list)" and "sorted_wrt (>) ks" and "set ks \<subseteq> set L"
  shows "compareRankTuples (map Some ks) (map Some (take (length ks) L)) \<le> 0"
proof -
  from top_dominates[OF assms]
  have len: "length ks \<le> length L" and nth: "\<forall>i < length ks. ks ! i \<le> L ! i" by simp_all
  have "list_all2 (\<le>) ks (take (length ks) L)"
    using len nth by (simp add: list_all2_conv_all_nth)
  then show ?thesis by (rule compare_pointwise)
qed

subsection \<open>The result of the evaluator as a pattern of the hand\<close>

lemma evaluate_cases [consumes 0, case_names SF Quads Full Flush Straight Trips TwoPair Pair High]:
  obtains
    (SF) h where "straightFlushHigh (suitGroups cs) = Some h" "evaluate cs = [Some 8, Some h]"
  | (Quads) "straightFlushHigh (suitGroups cs) = None" "rws cs 4 \<noteq> []"
      "evaluate cs = [Some 7, Some (rws cs 4 ! 0),
         atNum (topNDesc (map r (filter (\<lambda>c. r c \<noteq> rws cs 4 ! 0) cs)) 1) 0]"
  | (Full) "straightFlushHigh (suitGroups cs) = None" "rws cs 4 = []"
      "length (rws cs 3) \<ge> 2 \<or> (length (rws cs 3) \<ge> 1 \<and> length (rws cs 2) \<ge> 1)"
      "evaluate cs = [Some 6, Some (rws cs 3 ! 0),
         Some (if length (rws cs 3) \<ge> 2 then rws cs 3 ! 1 else rws cs 2 ! 0)]"
  | (Flush) g where "straightFlushHigh (suitGroups cs) = None" "rws cs 4 = []"
      "\<not> (length (rws cs 3) \<ge> 2 \<or> (length (rws cs 3) \<ge> 1 \<and> length (rws cs 2) \<ge> 1))"
      "flushGroup (suitGroups cs) = Some g"
      "evaluate cs = Some 5 # map Some (topNDesc (map r g) 5)"
  | (Straight) "straightFlushHigh (suitGroups cs) = None" "rws cs 4 = []"
      "\<not> (length (rws cs 3) \<ge> 2 \<or> (length (rws cs 3) \<ge> 1 \<and> length (rws cs 2) \<ge> 1))"
      "flushGroup (suitGroups cs) = None"
      "bestStraightHigh (sort (remdups (map r cs))) > 0"
      "evaluate cs = [Some 4, Some (bestStraightHigh (sort (remdups (map r cs))))]"
  | (Trips) "straightFlushHigh (suitGroups cs) = None" "rws cs 4 = []"
      "\<not> (length (rws cs 3) \<ge> 2 \<or> (length (rws cs 3) \<ge> 1 \<and> length (rws cs 2) \<ge> 1))"
      "flushGroup (suitGroups cs) = None"
      "\<not> bestStraightHigh (sort (remdups (map r cs))) > 0"
      "rws cs 3 \<noteq> []"
      "evaluate cs = Some 3 # Some (rws cs 3 ! 0)
          # map Some (topNDesc (map r (filter (\<lambda>c. r c \<noteq> rws cs 3 ! 0) cs)) 2)"
  | (TwoPair) "straightFlushHigh (suitGroups cs) = None" "rws cs 4 = []" "rws cs 3 = []"
      "flushGroup (suitGroups cs) = None"
      "\<not> bestStraightHigh (sort (remdups (map r cs))) > 0"
      "length (rws cs 2) \<ge> 2"
      "evaluate cs = [Some 2, Some (rws cs 2 ! 0), Some (rws cs 2 ! 1),
         atNum (topNDesc (map r (filter (\<lambda>c. r c \<noteq> rws cs 2 ! 0 \<and> r c \<noteq> rws cs 2 ! 1) cs)) 1) 0]"
  | (Pair) "straightFlushHigh (suitGroups cs) = None" "rws cs 4 = []" "rws cs 3 = []"
      "flushGroup (suitGroups cs) = None"
      "\<not> bestStraightHigh (sort (remdups (map r cs))) > 0"
      "length (rws cs 2) = 1"
      "evaluate cs = Some 1 # Some (rws cs 2 ! 0)
          # map Some (topNDesc (map r (filter (\<lambda>c. r c \<noteq> rws cs 2 ! 0) cs)) 3)"
  | (High) "straightFlushHigh (suitGroups cs) = None" "rws cs 4 = []" "rws cs 3 = []"
      "rws cs 2 = []" "flushGroup (suitGroups cs) = None"
      "\<not> bestStraightHigh (sort (remdups (map r cs))) > 0"
      "evaluate cs = Some 0 # map Some (topNDesc (map r cs) 5)"
proof (cases "straightFlushHigh (suitGroups cs)")
  case (Some h)
  then show ?thesis using SF by (simp add: evaluate_unfold)
next
  case sf: None
  show ?thesis
  proof (cases "rws cs 4 \<noteq> []")
    case True
    then show ?thesis using sf Quads by (simp add: evaluate_unfold)
  next
    case q: False
    show ?thesis
    proof (cases "length (rws cs 3) \<ge> 2 \<or> (length (rws cs 3) \<ge> 1 \<and> length (rws cs 2) \<ge> 1)")
      case True
      have "evaluate cs = [Some 6, Some (rws cs 3 ! 0),
         Some (if length (rws cs 3) \<ge> 2 then rws cs 3 ! 1 else rws cs 2 ! 0)]"
        unfolding evaluate_unfold[of cs] sf using q True by simp
      then show ?thesis using sf q True Full by simp
    next
      case fh: False
      have ev: "evaluate cs =
        (case flushGroup (suitGroups cs) of
          Some g \<Rightarrow> Some 5 # map Some (topNDesc (map r g) 5)
        | None \<Rightarrow>
          if bestStraightHigh (sort (remdups (map r cs))) > 0 then
            [Some 4, Some (bestStraightHigh (sort (remdups (map r cs))))]
          else if rws cs 3 \<noteq> [] then
            Some 3 # Some (rws cs 3 ! 0)
              # map Some (topNDesc (map r (filter (\<lambda>c. r c \<noteq> rws cs 3 ! 0) cs)) 2)
          else if length (rws cs 2) \<ge> 2 then
            [Some 2, Some (rws cs 2 ! 0), Some (rws cs 2 ! 1),
             atNum (topNDesc (map r (filter (\<lambda>c. r c \<noteq> rws cs 2 ! 0 \<and> r c \<noteq> rws cs 2 ! 1) cs)) 1) 0]
          else if length (rws cs 2) = 1 then
            Some 1 # Some (rws cs 2 ! 0)
              # map Some (topNDesc (map r (filter (\<lambda>c. r c \<noteq> rws cs 2 ! 0) cs)) 3)
          else Some 0 # map Some (topNDesc (map r cs) 5))"
      proof -
        have q': "(rws cs 4 \<noteq> []) = False" using q by simp
        have fh': "(length (rws cs 3) \<ge> 2 \<or> (length (rws cs 3) \<ge> 1 \<and> length (rws cs 2) \<ge> 1)) = False"
          using fh by simp
        show ?thesis unfolding evaluate_unfold[of cs] sf q' fh' by simp
      qed
      show ?thesis
      proof (cases "flushGroup (suitGroups cs)")
        case (Some g)
        then show ?thesis using sf q fh Flush ev by simp
      next
        case fg: None
        show ?thesis
        proof (cases "bestStraightHigh (sort (remdups (map r cs))) > 0")
          case True
          then show ?thesis using sf q fh fg Straight ev by simp
        next
          case st: False
          show ?thesis
          proof (cases "rws cs 3 \<noteq> []")
            case True
            then show ?thesis using sf q fh fg st Trips ev by simp
          next
            case t: False
            show ?thesis
            proof (cases "length (rws cs 2) \<ge> 2")
              case True
              then show ?thesis using sf q fg st t TwoPair ev by simp
            next
              case tp: False
              show ?thesis
              proof (cases "length (rws cs 2) = 1")
                case True
                then show ?thesis using sf q fg st t tp Pair ev by simp
              next
                case False
                with tp have "length (rws cs 2) = 0" by linarith
                then have "rws cs 2 = []" by simp
                then show ?thesis using sf q fg st t High ev by simp
              qed
            qed
          qed
        qed
      qed
    qed
  qed
qed

lemma validHand_distinct: "validHand cs \<Longrightarrow> distinct cs"
  by (simp add: validHand_def)

lemma validHand_valid: "validHand cs \<Longrightarrow> c \<in> set cs \<Longrightarrow> validCard c"
  by (simp add: validHand_def list_all_iff)

lemma validHand_rank: "validHand cs \<Longrightarrow> k \<in> r ` set cs \<Longrightarrow> 2 \<le> k \<and> k \<le> 14"
  by (auto simp: validHand_def list_all_iff validCard_def)

lemma validHand_nR_le4: "validHand cs \<Longrightarrow> nR (set cs) k \<le> 4"
  by (intro nR_le4) (auto simp: validHand_def list_all_iff)

lemma validHand_card: "validHand cs \<Longrightarrow> card (set cs) = length cs"
  by (simp add: validHand_def distinct_card)

lemma rws_nR:
  assumes "distinct cs" and "0 < n"
  shows "set (rws cs (int n)) = {k. nR (set cs) k = n}"
proof -
  have "(k \<in> r ` set cs \<and> cntRank cs k = int n) = (nR (set cs) k = n)" for k
    using assms nR_pos_iff[of "set cs" k] by (auto simp: cntRank_nR)
  then show ?thesis by (auto simp: rws_set)
qed

lemma rws4: "distinct cs \<Longrightarrow> set (rws cs 4) = {k. nR (set cs) k = 4}"
  using rws_nR[of cs 4] by simp

lemma rws3: "distinct cs \<Longrightarrow> set (rws cs 3) = {k. nR (set cs) k = 3}"
  using rws_nR[of cs 3] by simp

lemma rws2: "distinct cs \<Longrightarrow> set (rws cs 2) = {k. nR (set cs) k = 2}"
  using rws_nR[of cs 2] by simp

lemma sf_Some:
  assumes "straightFlushHigh (suitGroups cs) = Some h"
  obtains t where "5 \<le> length (suitCards cs t)"
    and "h = bestStraightHigh (remdups (map r (suitCards cs t)))" and "0 < h"
proof -
  from straightFlushHigh_Some[OF assms] obtain k g where
    "(k, g) \<in> set (suitGroups cs)" "5 \<le> length g" "bestStraightHigh (remdups (map r g)) = h" "0 < h"
    by auto
  then show ?thesis using that[of k] by (auto simp: suitGroups_mem)
qed

lemma sf_None:
  assumes "straightFlushHigh (suitGroups cs) = None" and "5 \<le> length (suitCards cs t)"
  shows "\<not> 0 < bestStraightHigh (remdups (map r (suitCards cs t)))"
proof -
  have "suitCards cs t \<noteq> []" using assms(2) by auto
  then have "(t, suitCards cs t) \<in> set (suitGroups cs)" by (simp add: suitGroups_mem)
  then show ?thesis using assms by (auto simp: straightFlushHigh_None)
qed

lemma fg_Some:
  assumes "flushGroup (suitGroups cs) = Some g"
  obtains t where "g = suitCards cs t" and "5 \<le> length g"
  using flushGroup_Some[OF assms] by (auto simp: suitGroups_mem)

lemma fg_None:
  assumes "flushGroup (suitGroups cs) = None"
  shows "length (suitCards cs t) < 5"
proof (rule ccontr)
  assume "\<not> length (suitCards cs t) < 5"
  then have 5: "5 \<le> length (suitCards cs t)" by simp
  then have "suitCards cs t \<noteq> []" by auto
  then have "(t, suitCards cs t) \<in> set (suitGroups cs)" by (simp add: suitGroups_mem)
  then show False using assms 5 by (auto simp: flushGroup_None)
qed

lemma straight_window:
  assumes "\<forall>k\<in>A. 2 \<le> k \<and> k \<le> 14" and "x \<in> straightHighs (aceLow A)"
  shows "\<exists>W. W \<subseteq> A \<and> card W = 5 \<and> x \<in> straightHighs (aceLow W)"
proof -
  have win: "{x - 4 .. x} \<subseteq> aceLow A" using assms(2) by (simp add: straightHighs_def)
  have ace: "aceLow A \<subseteq> insert 1 A" by (auto simp: aceLow_def)
  show ?thesis
  proof (cases "1 \<in> {x - 4 .. x}")
    case True
    then have "x \<le> 5" by simp
    have "x - 4 \<in> {x - 4 .. x}" by simp
    then have "x - 4 \<in> insert 1 A" using win ace by blast
    then have "1 \<le> x - 4" using assms(1) by auto
    with \<open>x \<le> 5\<close> have x: "x = 5" by simp
    have "1 \<in> aceLow A" using win True by blast
    moreover have "1 \<notin> A" using assms(1) by auto
    ultimately have a14: "14 \<in> A" by (auto simp: aceLow_def split: if_splits)
    have mem: "k \<in> A" if "k \<in> {2, 3, 4, 5}" for k
    proof -
      have "k \<in> {x - 4 .. x}" using that x by auto
      then have "k \<in> insert 1 A" using win ace by blast
      then show ?thesis using that by auto
    qed
    let ?W = "{2, 3, 4, 5, 14} :: int set"
    have "?W \<subseteq> A" using mem a14 by auto
    moreover have "card ?W = 5" by simp
    moreover have "x \<in> straightHighs (aceLow ?W)"
      unfolding x by (auto simp: straightHighs_def aceLow_def)
    ultimately show ?thesis by blast
  next
    case False
    then have "{x - 4 .. x} \<subseteq> A" using win ace by blast
    moreover have "card {x - 4 .. x} = 5" by simp
    moreover have "x \<in> straightHighs (aceLow {x - 4 .. x})"
      by (auto simp: straightHighs_def aceLow_def)
    ultimately show ?thesis by blast
  qed
qed

lemma straight_needs_five:
  assumes "finite A" and "\<forall>k\<in>A. 2 \<le> k \<and> k \<le> 14" and "x \<in> straightHighs (aceLow A)"
  shows "5 \<le> card A"
proof -
  from straight_window[OF assms(2,3)] obtain W where "W \<subseteq> A" "card W = 5" by blast
  then show ?thesis using card_mono[OF assms(1), of W] by simp
qed

lemma best_straight_upper:
  assumes "\<forall>k\<in>set ranks. 1 \<le> k" and "x \<in> straightHighs (aceLow (set ranks))"
  shows "0 < bestStraightHigh ranks \<and> x \<le> bestStraightHigh ranks"
proof -
  let ?H = "straightHighs (aceLow (set ranks))"
  have ne: "?H \<noteq> {}" using assms(2) by auto
  have fin: "finite ?H" by (simp add: straightHighs_finite aceLow_finite)
  have "bestStraightHigh ranks = Max ?H" using bestStraightHigh_ranks(2)[OF assms(1) ne] .
  moreover have "x \<le> Max ?H" using fin assms(2) by simp
  moreover have "0 < bestStraightHigh ranks" using bestStraightHigh_ranks(1)[OF assms(1)] ne by simp
  ultimately show ?thesis by simp
qed

lemma best_straight_mem:
  assumes "\<forall>k\<in>set ranks. 1 \<le> k" and "0 < bestStraightHigh ranks"
  shows "bestStraightHigh ranks \<in> straightHighs (aceLow (set ranks))"
proof -
  let ?H = "straightHighs (aceLow (set ranks))"
  have ne: "?H \<noteq> {}" using bestStraightHigh_ranks(1)[OF assms(1)] assms(2) by simp
  have fin: "finite ?H" by (simp add: straightHighs_finite aceLow_finite)
  have "bestStraightHigh ranks = Max ?H" using bestStraightHigh_ranks(2)[OF assms(1) ne] .
  then show ?thesis using Max_in[OF fin ne] by simp
qed

lemma sortDesc_hd:
  assumes "xs \<noteq> []"
  shows "sortDesc xs \<noteq> []" and "sortDesc xs ! 0 = Max (set xs)"
proof -
  have "length (sortDesc xs) \<noteq> 0" using assms by (simp add: sortDesc_length)
  then obtain l L where L: "sortDesc xs = l # L"
    by (cases "sortDesc xs") auto
  then show "sortDesc xs \<noteq> []" by simp
  have "sorted (rev (l # L))" using L[symmetric] by (simp add: sortDesc_def)
  then have le: "\<forall>x\<in>set L. x \<le> l" by (auto simp: sorted_append)
  have set: "set xs = insert l (set L)" using L sortDesc_set[of xs] by simp
  have "Max (set xs) = l"
    by (rule Max_eqI) (use le set in auto)
  then show "sortDesc xs ! 0 = Max (set xs)" using L by simp
qed

lemma single_kicker:
  assumes "xs \<noteq> []"
  shows "atNum (topNDesc xs 1) 0 = Some (Max (set xs))"
  using sortDesc_hd[OF assms]
  by (cases "sortDesc xs") (auto simp: atNum_def topNDesc_def)

lemma others_length:
  assumes "distinct cs"
  shows "length (filter (\<lambda>c. r c \<noteq> k) cs) + nR (set cs) k = length cs"
proof -
  have "length (filter (\<lambda>c. r c = k) cs) = nR (set cs) k"
    using cntRank_nR[OF assms, of k] by (simp add: cntRank_def)
  then show ?thesis
    using sum_length_filter_compl[of "\<lambda>c. r c = k" cs] by simp
qed

lemma others2_length:
  assumes "distinct cs" and "p1 \<noteq> p2"
  shows "length (filter (\<lambda>c. r c \<noteq> p1 \<and> r c \<noteq> p2) cs) + nR (set cs) p1 + nR (set cs) p2 = length cs"
proof -
  let ?xs = "filter (\<lambda>c. r c \<noteq> p1) cs"
  have d: "distinct ?xs" using assms(1) by simp
  have "{c \<in> set ?xs. r c = p2} = {c \<in> set cs. r c = p2}" using assms(2) by auto
  then have n: "nR (set ?xs) p2 = nR (set cs) p2" by (simp add: nR_def)
  have "length (filter (\<lambda>c. r c \<noteq> p2) ?xs) + nR (set ?xs) p2 = length ?xs"
    using d by (rule others_length)
  moreover have "filter (\<lambda>c. r c \<noteq> p2) ?xs = filter (\<lambda>c. r c \<noteq> p1 \<and> r c \<noteq> p2) cs"
    by (simp add: conj_commute)
  ultimately show ?thesis using others_length[OF assms(1), of p1] n by simp
qed

lemma singles_inj:
  assumes "finite H" and "X \<subseteq> H" and "\<forall>c\<in>X. nR H (r c) \<le> 1"
  shows "inj_on r X"
proof (rule inj_onI)
  fix a b assume a: "a \<in> X" and b: "b \<in> X" and eq: "r a = r b"
  show "a = b"
  proof (rule ccontr)
    assume ne: "a \<noteq> b"
    have "{a, b} \<subseteq> {c \<in> H. r c = r a}" using a b eq assms(2) by auto
    moreover have "finite {c \<in> H. r c = r a}" using assms(1) by simp
    ultimately have "card {a, b} \<le> nR H (r a)" unfolding nR_def by (rule card_mono[rotated])
    then have "2 \<le> nR H (r a)" using ne by simp
    then show False using assms(3) a by auto
  qed
qed

lemma singles_distinct:
  assumes "distinct cs" and "\<forall>c\<in>set cs. P c \<longrightarrow> nR (set cs) (r c) \<le> 1"
  shows "distinct (map r (filter P cs))"
proof -
  have "inj_on r (set (filter P cs))"
    using assms(2) by (intro singles_inj[of "set cs"]) auto
  then show ?thesis using assms(1) by (simp add: distinct_map)
qed

lemma kickers_take:
  assumes "distinct xs" and "n \<le> length xs"
  shows "length (topNDesc xs n) = n" and "sorted_wrt (>) (topNDesc xs n)"
    and "set (topNDesc xs n) \<subseteq> set xs"
proof -
  show "length (topNDesc xs n) = n" using assms(2) by (simp add: topNDesc_def sortDesc_length)
  show "sorted_wrt (>) (topNDesc xs n)"
    unfolding topNDesc_def using sortDesc_desc[OF assms(1)] by (rule sorted_wrt_take)
  show "set (topNDesc xs n) \<subseteq> set xs"
    unfolding topNDesc_def using set_take_subset[of n "sortDesc xs"] by (simp add: sortDesc_set)
qed

lemma suit_ranks_valid:
  "validHand cs \<Longrightarrow> \<forall>k\<in>set (remdups (map r (suitCards cs t))). 1 \<le> k"
  using validHand_rank[of cs] by (fastforce simp: suitCards_def)

lemma all_ranks_valid:
  "validHand cs \<Longrightarrow> \<forall>k\<in>set (sort (remdups (map r cs))). 1 \<le> k"
  using validHand_rank[of cs] by fastforce

lemma nth0_mem: "xs \<noteq> [] \<Longrightarrow> xs ! 0 \<in> set xs"
  by (cases xs) auto

lemma kicker_general:
  assumes "filter (\<lambda>c. r c \<notin> X) cs \<noteq> []"
  shows "atNum (topNDesc (map r (filter (\<lambda>c. r c \<notin> X) cs)) 1) 0 = Some (kickerOf cs X)"
    and "kickerOf cs X \<in> r ` set cs - X"
    and "\<And>k'. k' \<in> r ` set cs - X \<Longrightarrow> k' \<le> kickerOf cs X"
proof -
  let ?xs = "map r (filter (\<lambda>c. r c \<notin> X) cs)"
  have set: "set ?xs = r ` set cs - X" by auto
  have ne: "?xs \<noteq> []" using assms by simp
  show "atNum (topNDesc ?xs 1) 0 = Some (kickerOf cs X)"
    unfolding kickerOf_def set[symmetric] using ne by (rule single_kicker)
  have "set ?xs \<noteq> {}" using ne by (simp only: set_empty) simp
  then have "Max (set ?xs) \<in> set ?xs" by (intro Max_in) simp_all
  then show "kickerOf cs X \<in> r ` set cs - X" unfolding kickerOf_def set .
  show "k' \<le> kickerOf cs X" if "k' \<in> r ` set cs - X" for k'
    unfolding kickerOf_def using that by (intro Max_ge) simp_all
qed

lemma kicker_other:
  assumes "distinct cs" and "nR (set cs) q < length cs"
  shows "atNum (topNDesc (map r (filter (\<lambda>c. r c \<noteq> q) cs)) 1) 0 = Some (kickerOf cs {q})"
    and "kickerOf cs {q} \<in> r ` set cs - {q}"
    and "\<And>k'. k' \<in> r ` set cs - {q} \<Longrightarrow> k' \<le> kickerOf cs {q}"
proof -
  have "0 < length (filter (\<lambda>c. r c \<noteq> q) cs)"
    using others_length[OF assms(1), of q] assms(2) by linarith
  then have ne: "filter (\<lambda>c. r c \<notin> {q}) cs \<noteq> []" by simp
  from kicker_general[OF ne]
  show "atNum (topNDesc (map r (filter (\<lambda>c. r c \<noteq> q) cs)) 1) 0 = Some (kickerOf cs {q})"
    and "kickerOf cs {q} \<in> r ` set cs - {q}"
    and "\<And>k'. k' \<in> r ` set cs - {q} \<Longrightarrow> k' \<le> kickerOf cs {q}"
    by simp_all
qed

lemma kicker_other2:
  assumes "distinct cs" and "p1 \<noteq> p2" and "nR (set cs) p1 + nR (set cs) p2 < length cs"
  shows "atNum (topNDesc (map r (filter (\<lambda>c. r c \<noteq> p1 \<and> r c \<noteq> p2) cs)) 1) 0
           = Some (kickerOf cs {p1, p2})"
    and "kickerOf cs {p1, p2} \<in> r ` set cs - {p1, p2}"
    and "\<And>k'. k' \<in> r ` set cs - {p1, p2} \<Longrightarrow> k' \<le> kickerOf cs {p1, p2}"
proof -
  have "0 < length (filter (\<lambda>c. r c \<noteq> p1 \<and> r c \<noteq> p2) cs)"
    using others2_length[OF assms(1,2)] assms(3) by linarith
  then have ne: "filter (\<lambda>c. r c \<notin> {p1, p2}) cs \<noteq> []" by simp
  from kicker_general[OF ne]
  show "atNum (topNDesc (map r (filter (\<lambda>c. r c \<noteq> p1 \<and> r c \<noteq> p2) cs)) 1) 0
           = Some (kickerOf cs {p1, p2})"
    and "kickerOf cs {p1, p2} \<in> r ` set cs - {p1, p2}"
    and "\<And>k'. k' \<in> r ` set cs - {p1, p2} \<Longrightarrow> k' \<le> kickerOf cs {p1, p2}"
    by simp_all
qed

text \<open>In a hand without quads, with at most the given groups, all other ranks are single.\<close>

lemma other_single:
  assumes "validHand cs" and "rws cs 4 = []" and "set (rws cs 3) \<subseteq> X" and "set (rws cs 2) \<subseteq> X"
    and "c \<in> set cs" and "r c \<notin> X"
  shows "nR (set cs) (r c) \<le> 1"
proof -
  have d: "distinct cs" using assms(1) by (rule validHand_distinct)
  have le: "nR (set cs) (r c) \<le> 4" using assms(1) by (rule validHand_nR_le4)
  have "nR (set cs) (r c) \<noteq> 4" using assms(2) rws4[OF d] by auto
  moreover have "nR (set cs) (r c) \<noteq> 3" using assms(3,6) rws3[OF d] by auto
  moreover have "nR (set cs) (r c) \<noteq> 2" using assms(4,6) rws2[OF d] by auto
  ultimately show ?thesis using le by linarith
qed

lemma single_list: "length xs = 1 \<Longrightarrow> set xs = {xs ! 0}"
  by (cases xs) auto

lemma one_trips:
  assumes "\<not> (length (rws cs 3) \<ge> 2 \<or> (length (rws cs 3) \<ge> 1 \<and> length (rws cs 2) \<ge> 1))"
    and "rws cs 3 \<noteq> []"
  shows "set (rws cs 3) = {rws cs 3 ! 0}" and "rws cs 2 = []"
proof -
  have "length (rws cs 3) \<noteq> 0" using assms(2) by simp
  then have l: "length (rws cs 3) = 1" using assms(1) by linarith
  then show "set (rws cs 3) = {rws cs 3 ! 0}" by (rule single_list)
  have "length (rws cs 2) = 0" using assms(1) l by linarith
  then show "rws cs 2 = []" by simp
qed

lemma evaluate_achieves:
  assumes v: "validHand cs" and len: "5 \<le> length cs"
  shows "achieves (set cs) (evaluate cs)"
proof -
  have d: "distinct cs" using v by (rule validHand_distinct)
  show ?thesis
  proof (cases cs rule: evaluate_cases)
    case (SF h)
    from sf_Some[OF SF(1)] obtain t where t: "5 \<le> length (suitCards cs t)"
      "h = bestStraightHigh (remdups (map r (suitCards cs t)))" "0 < h" by blast
    have "h \<in> straightHighs (aceLow (set (remdups (map r (suitCards cs t)))))"
      using best_straight_mem[OF suit_ranks_valid[OF v, of t]] t(2,3) by simp
    then have "h \<in> straightHighs (aceLow (suitRanks (set cs) t))"
      using suitCards_ranks[of cs t] by simp
    then show ?thesis unfolding SF(2) by (rule achieves.straightFlush)
  next
    case Quads
    let ?q = "rws cs 4 ! 0"
    have q: "nR (set cs) ?q = 4" using nth0_mem[OF Quads(2)] rws4[OF d] by auto
    then have "nR (set cs) ?q < length cs" using len by simp
    note k = kicker_other[OF d this]
    show ?thesis unfolding Quads(3) k(1) using q k(2) by (intro achieves.quads) simp_all
  next
    case Full
    let ?t = "rws cs 3 ! 0"
    have ne: "rws cs 3 \<noteq> []" using Full(3) by auto
    have t: "nR (set cs) ?t = 3" using nth0_mem[OF ne] rws3[OF d] by auto
    show ?thesis
    proof (cases "2 \<le> length (rws cs 3)")
      case True
      from two_in_list[OF True rws_distinct]
      have "nR (set cs) (rws cs 3 ! 1) = 3" "?t \<noteq> rws cs 3 ! 1" using rws3[OF d] by auto
      then show ?thesis unfolding Full(4) using True t by (intro achieves.fullHouse) simp_all
    next
      case False
      then have "rws cs 2 \<noteq> []" using Full(3) by auto
      then have p: "nR (set cs) (rws cs 2 ! 0) = 2" using nth0_mem rws2[OF d] by auto
      then have "?t \<noteq> rws cs 2 ! 0" using t by auto
      then show ?thesis unfolding Full(4) using False t p by (intro achieves.fullHouse) simp_all
    qed
  next
    case (Flush g)
    from fg_Some[OF Flush(4)] obtain t where t: "g = suitCards cs t" "5 \<le> length g" by blast
    have dr: "distinct (map r g)" unfolding t(1) using d by (rule suitCards_distinct_ranks)
    have "5 \<le> length (map r g)" using t(2) by simp
    note k = kickers_take[OF dr this]
    have "set (topNDesc (map r g) 5) \<subseteq> suitRanks (set cs) t"
      using k(3) suitCards_ranks[of cs t] t(1) by simp
    then show ?thesis unfolding Flush(5) using k(1,2) by (intro achieves.flush[where t = t])
  next
    case Straight
    have "bestStraightHigh (sort (remdups (map r cs)))
        \<in> straightHighs (aceLow (set (sort (remdups (map r cs)))))"
      using best_straight_mem[OF all_ranks_valid[OF v]] Straight(5) by simp
    then show ?thesis unfolding Straight(6) by (intro achieves.straight) simp
  next
    case Trips
    let ?t = "rws cs 3 ! 0"
    note one = one_trips[OF Trips(3,6)]
    have t: "nR (set cs) ?t = 3" using nth0_mem[OF Trips(6)] rws3[OF d] by auto
    let ?xs = "map r (filter (\<lambda>c. r c \<noteq> ?t) cs)"
    have single: "\<forall>c\<in>set cs. r c \<noteq> ?t \<longrightarrow> nR (set cs) (r c) \<le> 1"
    proof (intro ballI impI)
      fix c assume "c \<in> set cs" "r c \<noteq> ?t"
      then show "nR (set cs) (r c) \<le> 1"
        using one by (intro other_single[OF v Trips(2), of "{?t}"]) auto
    qed
    have dx: "distinct ?xs" using d single by (rule singles_distinct)
    have "2 \<le> length ?xs" using others_length[OF d, of ?t] t len by simp
    note k = kickers_take[OF dx this]
    have "set (topNDesc ?xs 2) \<subseteq> r ` set cs - {?t}" using k(3) by auto
    then show ?thesis unfolding Trips(7) using k(1,2) t by (intro achieves.trips) simp_all
  next
    case TwoPair
    let ?p1 = "rws cs 2 ! 0" and ?p2 = "rws cs 2 ! 1"
    from two_in_list[OF TwoPair(6) rws_distinct]
    have p: "nR (set cs) ?p1 = 2" "nR (set cs) ?p2 = 2" "?p1 \<noteq> ?p2" using rws2[OF d] by auto
    have "?p2 < ?p1" using rws_desc[of cs 2] TwoPair(6) by (simp add: sorted_wrt_iff_nth_less)
    have "nR (set cs) ?p1 + nR (set cs) ?p2 < length cs" using p len by simp
    note k = kicker_other2[OF d p(3) this]
    show ?thesis unfolding TwoPair(7) k(1) using p \<open>?p2 < ?p1\<close> k(2)
      by (intro achieves.twoPair) simp_all
  next
    case Pair
    let ?p = "rws cs 2 ! 0"
    have ne: "rws cs 2 \<noteq> []" using Pair(6) by auto
    have P: "set (rws cs 2) = {?p}" using Pair(6) by (rule single_list)
    have p: "nR (set cs) ?p = 2" using nth0_mem[OF ne] rws2[OF d] by auto
    let ?xs = "map r (filter (\<lambda>c. r c \<noteq> ?p) cs)"
    have single: "\<forall>c\<in>set cs. r c \<noteq> ?p \<longrightarrow> nR (set cs) (r c) \<le> 1"
    proof (intro ballI impI)
      fix c assume "c \<in> set cs" "r c \<noteq> ?p"
      then show "nR (set cs) (r c) \<le> 1"
        using P Pair(3) by (intro other_single[OF v Pair(2), of "{?p}"]) auto
    qed
    have dx: "distinct ?xs" using d single by (rule singles_distinct)
    have "3 \<le> length ?xs" using others_length[OF d, of ?p] p len by simp
    note k = kickers_take[OF dx this]
    have "set (topNDesc ?xs 3) \<subseteq> r ` set cs - {?p}" using k(3) by auto
    then show ?thesis unfolding Pair(7) using k(1,2) p by (intro achieves.pair) simp_all
  next
    case High
    have single: "\<forall>c\<in>set cs. True \<longrightarrow> nR (set cs) (r c) \<le> 1"
    proof (intro ballI impI)
      fix c assume "c \<in> set cs"
      then show "nR (set cs) (r c) \<le> 1"
        using High(3,4) by (intro other_single[OF v High(2), of "{}"]) auto
    qed
    have "distinct (map r (filter (\<lambda>c. True) cs))" using d single by (rule singles_distinct)
    then have dx: "distinct (map r cs)" by simp
    have "5 \<le> length (map r cs)" using len by simp
    note k = kickers_take[OF dx this]
    show ?thesis unfolding High(7) using k by (intro achieves.highCard) simp_all
  qed
qed

subsection \<open>Every pattern of the hand is dominated by the result\<close>

lemma in_rws4: "validHand cs \<Longrightarrow> 4 \<le> nR (set cs) q \<Longrightarrow> q \<in> set (rws cs 4)"
  using validHand_nR_le4[of cs q] rws4[OF validHand_distinct, of cs] by auto

lemma in_rws3:
  assumes "validHand cs" and "rws cs 4 = []" and "3 \<le> nR (set cs) t"
  shows "t \<in> set (rws cs 3)"
proof -
  have d: "distinct cs" using assms(1) by (rule validHand_distinct)
  have "nR (set cs) t \<noteq> 4" using assms(2) rws4[OF d] by auto
  then have "nR (set cs) t = 3" using assms(3) validHand_nR_le4[OF assms(1), of t] by linarith
  then show ?thesis using rws3[OF d] by simp
qed

lemma in_rws23:
  assumes "validHand cs" and "rws cs 4 = []" and "2 \<le> nR (set cs) p"
  shows "p \<in> set (rws cs 3) \<or> p \<in> set (rws cs 2)"
proof -
  have d: "distinct cs" using assms(1) by (rule validHand_distinct)
  have "nR (set cs) p \<noteq> 4" using assms(2) rws4[OF d] by auto
  then have "nR (set cs) p = 3 \<or> nR (set cs) p = 2"
    using assms(3) validHand_nR_le4[OF assms(1), of p] by linarith
  then show ?thesis using rws3[OF d] rws2[OF d] by auto
qed

lemma in_rws2:
  assumes "validHand cs" and "rws cs 4 = []" and "rws cs 3 = []" and "2 \<le> nR (set cs) p"
  shows "p \<in> set (rws cs 2)"
  using in_rws23[OF assms(1,2,4)] assms(3) by simp

lemma two_mem_length: "a \<in> set xs \<Longrightarrow> b \<in> set xs \<Longrightarrow> a \<noteq> b \<Longrightarrow> 2 \<le> length xs"
  by (cases xs; cases "tl xs") auto

lemma fh_cond:
  assumes "validHand cs" and "rws cs 4 = []" and "3 \<le> nR (set cs) t" and "2 \<le> nR (set cs) p"
    and "t \<noteq> p"
  shows "length (rws cs 3) \<ge> 2 \<or> (length (rws cs 3) \<ge> 1 \<and> length (rws cs 2) \<ge> 1)"
proof -
  have t: "t \<in> set (rws cs 3)" using assms(1,2,3) by (rule in_rws3)
  then have l3: "1 \<le> length (rws cs 3)" by (cases "rws cs 3") auto
  from in_rws23[OF assms(1,2,4)] show ?thesis
  proof
    assume "p \<in> set (rws cs 3)"
    then show ?thesis using t assms(5) two_mem_length[of t "rws cs 3" p] by simp
  next
    assume "p \<in> set (rws cs 2)"
    then have "1 \<le> length (rws cs 2)" by (cases "rws cs 2") auto
    then show ?thesis using l3 by simp
  qed
qed

lemma one_flush_suit:
  assumes "validHand cs" and "length cs \<le> 7"
    and "5 \<le> length (suitCards cs t)" and "5 \<le> length (suitCards cs u)"
  shows "t = u"
proof (rule ccontr)
  assume "t \<noteq> u"
  have d: "distinct cs" using assms(1) by (rule validHand_distinct)
  have "card (suitRanks (set cs) t) + card (suitRanks (set cs) u) \<le> card (set cs)"
    using \<open>t \<noteq> u\<close> by (intro suit_two) simp
  then show False
    using assms(2,3,4) suitCards_length[OF d] validHand_card[OF assms(1)] by simp
qed

lemma dominate_sf:
  assumes v: "validHand cs" and len: "length cs \<le> 7"
    and x: "x \<in> straightHighs (aceLow (suitRanks (set cs) t))"
  shows "compareRankTuples [Some 8, Some x] (evaluate cs) \<le> 0"
proof -
  have d: "distinct cs" using v by (rule validHand_distinct)
  have val: "\<forall>k\<in>suitRanks (set cs) t. 2 \<le> k \<and> k \<le> 14"
    using validHand_rank[OF v] suitRanks_subset[of "set cs" t] by blast
  have fin: "finite (suitRanks (set cs) t)" by (simp add: suitRanks_def)
  have five: "5 \<le> length (suitCards cs t)"
    using straight_needs_five[OF fin val x] suitCards_length[OF d, of t] by simp
  have x': "x \<in> straightHighs (aceLow (set (remdups (map r (suitCards cs t)))))"
    using x suitCards_ranks[of cs t] by simp
  note up = best_straight_upper[OF suit_ranks_valid[OF v, of t] x']
  show ?thesis
  proof (cases cs rule: evaluate_cases)
    case (SF h)
    from sf_Some[OF SF(1)] obtain t' where t': "5 \<le> length (suitCards cs t')"
      "h = bestStraightHigh (remdups (map r (suitCards cs t')))" by blast
    have "t' = t" using v len t'(1) five by (rule one_flush_suit)
    then have "x \<le> h" using up t'(2) by simp
    then show ?thesis unfolding SF(2) by (simp add: compare_Some_Cons compare_Nil)
  next
    case Quads
    then show ?thesis using sf_None[OF Quads(1) five] up by simp
  next
    case Full
    then show ?thesis using sf_None[OF Full(1) five] up by simp
  next
    case (Flush g)
    then show ?thesis using sf_None[OF Flush(1) five] up by simp
  next
    case Straight
    then show ?thesis using sf_None[OF Straight(1) five] up by simp
  next
    case Trips
    then show ?thesis using sf_None[OF Trips(1) five] up by simp
  next
    case TwoPair
    then show ?thesis using sf_None[OF TwoPair(1) five] up by simp
  next
    case Pair
    then show ?thesis using sf_None[OF Pair(1) five] up by simp
  next
    case High
    then show ?thesis using sf_None[OF High(1) five] up by simp
  qed
qed

lemma dominate_quads:
  assumes v: "validHand cs" and len: "5 \<le> length cs"
    and q: "4 \<le> nR (set cs) q" and k: "k \<in> r ` set cs" "k \<noteq> q"
  shows "compareRankTuples [Some 7, Some q, Some k] (evaluate cs) \<le> 0"
proof -
  have d: "distinct cs" using v by (rule validHand_distinct)
  have qin: "q \<in> set (rws cs 4)" using v q by (rule in_rws4)
  show ?thesis
  proof (cases cs rule: evaluate_cases)
    case (SF h)
    show ?thesis unfolding SF(2) by (simp add: compare_Some_Cons)
  next
    case Quads
    let ?q = "rws cs 4 ! 0"
    have le: "q \<le> ?q" using rws_desc qin by (rule desc_hd_max)
    have "nR (set cs) ?q = 4" using nth0_mem[OF Quads(2)] rws4[OF d] by auto
    then have "nR (set cs) ?q < length cs" using len by simp
    note kk = kicker_other[OF d this]
    show ?thesis
    proof (cases "q = ?q")
      case True
      then have "k \<le> kickerOf cs {?q}" using k by (intro kk(3)) simp
      then show ?thesis unfolding Quads(3) kk(1) using True
        by (simp add: compare_Some_Cons compare_Nil)
    next
      case False
      then show ?thesis unfolding Quads(3) kk(1) using le
        by (simp add: compare_Some_Cons)
    qed
  next
    case Full
    then show ?thesis using qin by simp
  next
    case (Flush g)
    then show ?thesis using qin by simp
  next
    case Straight
    then show ?thesis using qin by simp
  next
    case Trips
    then show ?thesis using qin by simp
  next
    case TwoPair
    then show ?thesis using qin by simp
  next
    case Pair
    then show ?thesis using qin by simp
  next
    case High
    then show ?thesis using qin by simp
  qed
qed

lemma dominate_full:
  assumes v: "validHand cs" and len: "length cs \<le> 7"
    and t: "3 \<le> nR (set cs) t" and p: "2 \<le> nR (set cs) p" and tp: "t \<noteq> p"
  shows "compareRankTuples [Some 6, Some t, Some p] (evaluate cs) \<le> 0"
proof -
  have d: "distinct cs" using v by (rule validHand_distinct)
  show ?thesis
  proof (cases cs rule: evaluate_cases)
    case (SF h)
    show ?thesis unfolding SF(2) by (simp add: compare_Some_Cons)
  next
    case Quads
    show ?thesis unfolding Quads(3) by (simp add: compare_Some_Cons)
  next
    case Full
    let ?t = "rws cs 3 ! 0"
    have tin: "t \<in> set (rws cs 3)" using v Full(2) t by (rule in_rws3)
    have le: "t \<le> ?t" using rws_desc tin by (rule desc_hd_max)
    show ?thesis
    proof (cases "t = ?t")
      case False
      then show ?thesis unfolding Full(4) using le by (simp add: compare_Some_Cons)
    next
      case True
      have "p \<le> (if length (rws cs 3) \<ge> 2 then rws cs 3 ! 1 else rws cs 2 ! 0)"
      proof (cases "2 \<le> length (rws cs 3)")
        case two: True
        from two_in_list[OF two rws_distinct]
        have n: "nR (set cs) (rws cs 3 ! 0) = 3" "nR (set cs) (rws cs 3 ! 1) = 3"
          "rws cs 3 ! 0 \<noteq> rws cs 3 ! 1" using rws3[OF d] by auto
        have "p \<in> set (rws cs 3)"
        proof (rule ccontr)
          assume "p \<notin> set (rws cs 3)"
          then have "nR (set cs) p \<noteq> 3" using rws3[OF d] by auto
          then have ne: "rws cs 3 ! 1 \<noteq> p" using n(2) by auto
          have "nR (set cs) (rws cs 3 ! 0) + nR (set cs) (rws cs 3 ! 1) + nR (set cs) p \<le> card (set cs)"
            using n(3) tp True ne by (intro nR_three) auto
          then show False using n p len validHand_card[OF v] by simp
        qed
        then have "p \<le> rws cs 3 ! 1" using rws_desc tp True desc_second[of "rws cs 3" p] by auto
        then show ?thesis using two by simp
      next
        case one: False
        have "length (rws cs 3) \<noteq> 0" using tin by auto
        then have "length (rws cs 3) = 1" using one by linarith
        then have "set (rws cs 3) = {?t}" by (rule single_list)
        then have "p \<notin> set (rws cs 3)" using tp True by auto
        then have "p \<in> set (rws cs 2)" using in_rws23[OF v Full(2) p] by simp
        then have "p \<le> rws cs 2 ! 0" using rws_desc desc_hd_max by blast
        then show ?thesis using one by simp
      qed
      then show ?thesis unfolding Full(4) using True
        by (simp add: compare_Some_Cons compare_Nil)
    qed
  next
    case (Flush g)
    then show ?thesis using fh_cond[OF v Flush(2) t p tp] by simp
  next
    case Straight
    then show ?thesis using fh_cond[OF v Straight(2) t p tp] by simp
  next
    case Trips
    then show ?thesis using fh_cond[OF v Trips(2) t p tp] by simp
  next
    case TwoPair
    then show ?thesis using in_rws3[OF v TwoPair(2) t] by simp
  next
    case Pair
    then show ?thesis using in_rws3[OF v Pair(2) t] by simp
  next
    case High
    then show ?thesis using in_rws3[OF v High(2) t] by simp
  qed
qed

lemma desc_distinct: "sorted_wrt (>) (ks :: int list) \<Longrightarrow> distinct ks"
  by (simp add: desc_iff)

lemma dominate_flush:
  assumes v: "validHand cs" and len: "length cs \<le> 7"
    and ks: "length ks = 5" "sorted_wrt (>) ks" "set ks \<subseteq> suitRanks (set cs) t"
  shows "compareRankTuples (Some 5 # map Some ks) (evaluate cs) \<le> 0"
proof -
  have d: "distinct cs" using v by (rule validHand_distinct)
  have "card (set ks) = 5" using ks(1) desc_distinct[OF ks(2)] by (simp add: distinct_card)
  moreover have "card (set ks) \<le> card (suitRanks (set cs) t)"
    using ks(3) by (intro card_mono) (simp_all add: suitRanks_def)
  ultimately have five: "5 \<le> length (suitCards cs t)" using suitCards_length[OF d, of t] by simp
  show ?thesis
  proof (cases cs rule: evaluate_cases)
    case (SF h)
    show ?thesis unfolding SF(2) by (simp add: compare_Some_Cons)
  next
    case Quads
    show ?thesis unfolding Quads(3) by (simp add: compare_Some_Cons)
  next
    case Full
    show ?thesis unfolding Full(4) by (simp add: compare_Some_Cons)
  next
    case (Flush g)
    from fg_Some[OF Flush(4)] obtain t' where t': "g = suitCards cs t'" "5 \<le> length g" by blast
    have "t' = t" using v len t'(2) five unfolding t'(1) by (rule one_flush_suit)
    then have g: "g = suitCards cs t" using t'(1) by simp
    have dr: "distinct (map r g)" unfolding g using d by (rule suitCards_distinct_ranks)
    have sub: "set ks \<subseteq> set (sortDesc (map r g))"
      using ks(3) suitCards_ranks[of cs t] g by (simp add: sortDesc_set)
    from top_dominates_compare[OF sortDesc_desc[OF dr] ks(2) sub]
    show ?thesis unfolding Flush(5) topNDesc_def using ks(1)
      by (simp add: compare_Some_Cons)
  next
    case Straight
    then show ?thesis using fg_None[OF Straight(4), of t] five by simp
  next
    case Trips
    then show ?thesis using fg_None[OF Trips(4), of t] five by simp
  next
    case TwoPair
    then show ?thesis using fg_None[OF TwoPair(4), of t] five by simp
  next
    case Pair
    then show ?thesis using fg_None[OF Pair(4), of t] five by simp
  next
    case High
    then show ?thesis using fg_None[OF High(5), of t] five by simp
  qed
qed

lemma dominate_straight:
  assumes v: "validHand cs" and x: "x \<in> straightHighs (aceLow (r ` set cs))"
  shows "compareRankTuples [Some 4, Some x] (evaluate cs) \<le> 0"
proof -
  have x': "x \<in> straightHighs (aceLow (set (sort (remdups (map r cs)))))" using x by simp
  note up = best_straight_upper[OF all_ranks_valid[OF v] x']
  show ?thesis
  proof (cases cs rule: evaluate_cases)
    case (SF h)
    show ?thesis unfolding SF(2) by (simp add: compare_Some_Cons)
  next
    case Quads
    show ?thesis unfolding Quads(3) by (simp add: compare_Some_Cons)
  next
    case Full
    show ?thesis unfolding Full(4) by (simp add: compare_Some_Cons)
  next
    case (Flush g)
    show ?thesis unfolding Flush(5) by (simp add: compare_Some_Cons)
  next
    case Straight
    show ?thesis unfolding Straight(6) using up by (simp add: compare_Some_Cons compare_Nil)
  next
    case Trips
    then show ?thesis using up by simp
  next
    case TwoPair
    then show ?thesis using up by simp
  next
    case Pair
    then show ?thesis using up by simp
  next
    case High
    then show ?thesis using up by simp
  qed
qed

lemma dominate_trips:
  assumes v: "validHand cs"
    and t: "3 \<le> nR (set cs) t"
    and ks: "length ks = 2" "sorted_wrt (>) ks" "set ks \<subseteq> r ` set cs - {t}"
  shows "compareRankTuples (Some 3 # Some t # map Some ks) (evaluate cs) \<le> 0"
proof -
  have d: "distinct cs" using v by (rule validHand_distinct)
  show ?thesis
  proof (cases cs rule: evaluate_cases)
    case (SF h)
    show ?thesis unfolding SF(2) by (simp add: compare_Some_Cons)
  next
    case Quads
    show ?thesis unfolding Quads(3) by (simp add: compare_Some_Cons)
  next
    case Full
    show ?thesis unfolding Full(4) by (simp add: compare_Some_Cons)
  next
    case (Flush g)
    show ?thesis unfolding Flush(5) by (simp add: compare_Some_Cons)
  next
    case Straight
    show ?thesis unfolding Straight(6) by (simp add: compare_Some_Cons)
  next
    case Trips
    let ?t = "rws cs 3 ! 0"
    note one = one_trips[OF Trips(3,6)]
    have "t \<in> set (rws cs 3)" using v Trips(2) t by (rule in_rws3)
    then have eq: "t = ?t" using one(1) by simp
    let ?xs = "map r (filter (\<lambda>c. r c \<noteq> ?t) cs)"
    have single: "\<forall>c\<in>set cs. r c \<noteq> ?t \<longrightarrow> nR (set cs) (r c) \<le> 1"
    proof (intro ballI impI)
      fix c assume "c \<in> set cs" "r c \<noteq> ?t"
      then show "nR (set cs) (r c) \<le> 1"
        using one by (intro other_single[OF v Trips(2), of "{?t}"]) auto
    qed
    have dx: "distinct ?xs" using d single by (rule singles_distinct)
    have sub: "set ks \<subseteq> set (sortDesc ?xs)" using ks(3) eq by (auto simp: sortDesc_set)
    from top_dominates_compare[OF sortDesc_desc[OF dx] ks(2) sub]
    show ?thesis unfolding Trips(7) topNDesc_def using ks(1) eq
      by (simp add: compare_Some_Cons)
  next
    case TwoPair
    then show ?thesis using in_rws3[OF v TwoPair(2) t] by simp
  next
    case Pair
    then show ?thesis using in_rws3[OF v Pair(2) t] by simp
  next
    case High
    then show ?thesis using in_rws3[OF v High(2) t] by simp
  qed
qed

lemma dominate_twoPair:
  assumes v: "validHand cs" and len: "5 \<le> length cs"
    and p1: "2 \<le> nR (set cs) p1" and p2: "2 \<le> nR (set cs) p2" and lt: "p2 < p1"
    and k: "k \<in> r ` set cs - {p1, p2}"
  shows "compareRankTuples [Some 2, Some p1, Some p2, Some k] (evaluate cs) \<le> 0"
proof -
  have d: "distinct cs" using v by (rule validHand_distinct)
  show ?thesis
  proof (cases cs rule: evaluate_cases)
    case (SF h)
    show ?thesis unfolding SF(2) by (simp add: compare_Some_Cons)
  next
    case Quads
    show ?thesis unfolding Quads(3) by (simp add: compare_Some_Cons)
  next
    case Full
    show ?thesis unfolding Full(4) by (simp add: compare_Some_Cons)
  next
    case (Flush g)
    show ?thesis unfolding Flush(5) by (simp add: compare_Some_Cons)
  next
    case Straight
    show ?thesis unfolding Straight(6) by (simp add: compare_Some_Cons)
  next
    case Trips
    show ?thesis unfolding Trips(7) by (simp add: compare_Some_Cons)
  next
    case TwoPair
    let ?p1 = "rws cs 2 ! 0" and ?p2 = "rws cs 2 ! 1"
    have in1: "p1 \<in> set (rws cs 2)" using v TwoPair(2,3) p1 by (rule in_rws2)
    have in2: "p2 \<in> set (rws cs 2)" using v TwoPair(2,3) p2 by (rule in_rws2)
    from two_in_list[OF TwoPair(6) rws_distinct]
    have n: "nR (set cs) ?p1 = 2" "nR (set cs) ?p2 = 2" "?p1 \<noteq> ?p2" using rws2[OF d] by auto
    have "nR (set cs) ?p1 + nR (set cs) ?p2 < length cs" using n len by simp
    note kk = kicker_other2[OF d n(3) this]
    have le1: "p1 \<le> ?p1" using rws_desc in1 by (rule desc_hd_max)
    show ?thesis
    proof (cases "p1 = ?p1")
      case False
      then show ?thesis unfolding TwoPair(7) kk(1) using le1 by (simp add: compare_Some_Cons)
    next
      case e1: True
      then have "p2 \<noteq> ?p1" using lt by simp
      then have le2: "p2 \<le> ?p2" using rws_desc in2 desc_second[of "rws cs 2" p2] by auto
      show ?thesis
      proof (cases "p2 = ?p2")
        case False
        then show ?thesis unfolding TwoPair(7) kk(1) using e1 le2 by (simp add: compare_Some_Cons)
      next
        case e2: True
        have "k \<le> kickerOf cs {?p1, ?p2}" using k e1 e2 by (intro kk(3)) simp
        then show ?thesis unfolding TwoPair(7) kk(1) using e1 e2
          by (simp add: compare_Some_Cons compare_Nil)
      qed
    qed
  next
    case Pair
    have in1: "p1 \<in> set (rws cs 2)" using v Pair(2,3) p1 by (rule in_rws2)
    have in2: "p2 \<in> set (rws cs 2)" using v Pair(2,3) p2 by (rule in_rws2)
    have "2 \<le> length (rws cs 2)" using in1 in2 lt two_mem_length[of p1 "rws cs 2" p2] by simp
    then show ?thesis using Pair(6) by simp
  next
    case High
    then show ?thesis using in_rws2[OF v High(2,3) p1] by simp
  qed
qed

lemma dominate_pair:
  assumes v: "validHand cs"
    and p: "2 \<le> nR (set cs) p"
    and ks: "length ks = 3" "sorted_wrt (>) ks" "set ks \<subseteq> r ` set cs - {p}"
  shows "compareRankTuples (Some 1 # Some p # map Some ks) (evaluate cs) \<le> 0"
proof -
  have d: "distinct cs" using v by (rule validHand_distinct)
  show ?thesis
  proof (cases cs rule: evaluate_cases)
    case (SF h)
    show ?thesis unfolding SF(2) by (simp add: compare_Some_Cons)
  next
    case Quads
    show ?thesis unfolding Quads(3) by (simp add: compare_Some_Cons)
  next
    case Full
    show ?thesis unfolding Full(4) by (simp add: compare_Some_Cons)
  next
    case (Flush g)
    show ?thesis unfolding Flush(5) by (simp add: compare_Some_Cons)
  next
    case Straight
    show ?thesis unfolding Straight(6) by (simp add: compare_Some_Cons)
  next
    case Trips
    show ?thesis unfolding Trips(7) by (simp add: compare_Some_Cons)
  next
    case TwoPair
    show ?thesis unfolding TwoPair(7) by (simp add: compare_Some_Cons)
  next
    case Pair
    let ?p = "rws cs 2 ! 0"
    have P: "set (rws cs 2) = {?p}" using Pair(6) by (rule single_list)
    have "p \<in> set (rws cs 2)" using v Pair(2,3) p by (rule in_rws2)
    then have eq: "p = ?p" using P by simp
    let ?xs = "map r (filter (\<lambda>c. r c \<noteq> ?p) cs)"
    have single: "\<forall>c\<in>set cs. r c \<noteq> ?p \<longrightarrow> nR (set cs) (r c) \<le> 1"
    proof (intro ballI impI)
      fix c assume "c \<in> set cs" "r c \<noteq> ?p"
      then show "nR (set cs) (r c) \<le> 1"
        using P Pair(3) by (intro other_single[OF v Pair(2), of "{?p}"]) auto
    qed
    have dx: "distinct ?xs" using d single by (rule singles_distinct)
    have sub: "set ks \<subseteq> set (sortDesc ?xs)" using ks(3) eq by (auto simp: sortDesc_set)
    from top_dominates_compare[OF sortDesc_desc[OF dx] ks(2) sub]
    show ?thesis unfolding Pair(7) topNDesc_def using ks(1) eq
      by (simp add: compare_Some_Cons)
  next
    case High
    then show ?thesis using in_rws2[OF v High(2,3) p] by simp
  qed
qed

lemma dominate_high:
  assumes v: "validHand cs"
    and ks: "length ks = 5" "sorted_wrt (>) ks" "set ks \<subseteq> r ` set cs"
  shows "compareRankTuples (Some 0 # map Some ks) (evaluate cs) \<le> 0"
proof -
  have d: "distinct cs" using v by (rule validHand_distinct)
  show ?thesis
  proof (cases cs rule: evaluate_cases)
    case (SF h)
    show ?thesis unfolding SF(2) by (simp add: compare_Some_Cons)
  next
    case Quads
    show ?thesis unfolding Quads(3) by (simp add: compare_Some_Cons)
  next
    case Full
    show ?thesis unfolding Full(4) by (simp add: compare_Some_Cons)
  next
    case (Flush g)
    show ?thesis unfolding Flush(5) by (simp add: compare_Some_Cons)
  next
    case Straight
    show ?thesis unfolding Straight(6) by (simp add: compare_Some_Cons)
  next
    case Trips
    show ?thesis unfolding Trips(7) by (simp add: compare_Some_Cons)
  next
    case TwoPair
    show ?thesis unfolding TwoPair(7) by (simp add: compare_Some_Cons)
  next
    case Pair
    show ?thesis unfolding Pair(7) by (simp add: compare_Some_Cons)
  next
    case High
    have single: "\<forall>c\<in>set cs. True \<longrightarrow> nR (set cs) (r c) \<le> 1"
    proof (intro ballI impI)
      fix c assume "c \<in> set cs"
      then show "nR (set cs) (r c) \<le> 1"
        using High(3,4) by (intro other_single[OF v High(2), of "{}"]) auto
    qed
    have "distinct (map r (filter (\<lambda>c. True) cs))" using d single by (rule singles_distinct)
    then have dx: "distinct (map r cs)" by simp
    have sub: "set ks \<subseteq> set (sortDesc (map r cs))" using ks(3) by (simp add: sortDesc_set)
    from top_dominates_compare[OF sortDesc_desc[OF dx] ks(2) sub]
    show ?thesis unfolding High(7) topNDesc_def using ks(1)
      by (simp add: compare_Some_Cons)
  qed
qed

lemma evaluate_dominates:
  assumes v: "validHand cs" and len: "5 \<le> length cs" "length cs \<le> 7"
    and a: "achieves (set cs) u"
  shows "compareRankTuples u (evaluate cs) \<le> 0"
  using a
proof cases
  case (straightFlush x t)
  show ?thesis unfolding straightFlush(1) using v len(2) straightFlush(2) by (rule dominate_sf)
next
  case (quads q k)
  show ?thesis unfolding quads(1) using v len(1) quads(2-) by (rule dominate_quads)
next
  case (fullHouse t p)
  show ?thesis unfolding fullHouse(1) using v len(2) fullHouse(2-) by (rule dominate_full)
next
  case (flush ks t)
  show ?thesis unfolding flush(1) using v len(2) flush(2-) by (rule dominate_flush)
next
  case (straight x)
  show ?thesis unfolding straight(1) using v straight(2) by (rule dominate_straight)
next
  case (trips t ks)
  show ?thesis unfolding trips(1) using v trips(2-) by (rule dominate_trips)
next
  case (twoPair p1 p2 k)
  show ?thesis unfolding twoPair(1) using v len(1) twoPair(2-) by (rule dominate_twoPair)
next
  case (pair p ks)
  show ?thesis unfolding pair(1) using v pair(2-) by (rule dominate_pair)
next
  case (highCard ks)
  show ?thesis unfolding highCard(1) using v highCard(2-) by (rule dominate_high)
qed

subsection \<open>Five cards that hold a pattern\<close>

lemma nR_finite: "finite H \<Longrightarrow> finite {c \<in> H. r c = k}"
  by simp

lemma pick_cards:
  assumes "finite H" and "distinct (map fst ds)" and "\<forall>(k, m)\<in>set ds. m \<le> nR H k"
  shows "\<exists>H'. H' \<subseteq> H \<and> card H' = sum_list (map snd ds)
           \<and> (\<forall>(k, m)\<in>set ds. nR H' k = m) \<and> r ` H' \<subseteq> fst ` set ds"
  using assms(2,3)
proof (induction ds)
  case Nil
  show ?case by (intro exI[of _ "{}"]) simp
next
  case (Cons d ds)
  obtain k m where d: "d = (k, m)" by (cases d)
  from Cons.prems have "distinct (map fst ds)" "\<forall>(k, m)\<in>set ds. m \<le> nR H k" by simp_all
  from Cons.IH[OF this] obtain H2 where H2c: "H2 \<subseteq> H \<and> card H2 = sum_list (map snd ds)
    \<and> (\<forall>(k, m)\<in>set ds. nR H2 k = m) \<and> r ` H2 \<subseteq> fst ` set ds" ..
  then have H2: "H2 \<subseteq> H" "card H2 = sum_list (map snd ds)"
    "\<forall>(k, m)\<in>set ds. nR H2 k = m" "r ` H2 \<subseteq> fst ` set ds" by simp_all
  have "m \<le> card {c \<in> H. r c = k}" using Cons.prems(2) d by (simp add: nR_def)
  from obtain_subset_with_card_n[OF this]
  obtain T where T: "T \<subseteq> {c \<in> H. r c = k}" "card T = m" by metis
  have finT: "finite T" using T(1) assms(1) by (auto intro: finite_subset)
  have finH2: "finite H2" using H2(1) assms(1) by (rule finite_subset)
  have knew: "k \<notin> fst ` set ds" using Cons.prems(1) d by simp
  have disj: "T \<inter> H2 = {}" using T(1) H2(4) knew by auto
  let ?H = "T \<union> H2"
  have 1: "?H \<subseteq> H" using T(1) H2(1) by auto
  have 2: "card ?H = sum_list (map snd (d # ds))"
    using card_Un_disjoint[OF finT finH2 disj] T(2) H2(2) d by simp
  have "{c \<in> ?H. r c = k} = T" using T(1) H2(4) knew by auto
  then have 3: "nR ?H k = m" using T(2) by (simp add: nR_def)
  have 4: "nR ?H k' = m'" if "(k', m') \<in> set ds" for k' m'
  proof -
    have "k' \<noteq> k" using that knew by force
    then have "{c \<in> ?H. r c = k'} = {c \<in> H2. r c = k'}" using T(1) by auto
    then show ?thesis using H2(3) that by (auto simp: nR_def)
  qed
  have 5: "r ` ?H \<subseteq> fst ` set (d # ds)" using T(1) H2(4) d by auto
  have 34: "\<forall>(k', m')\<in>set (d # ds). nR ?H k' = m'" using 3 4 d by auto
  show ?case using 1 2 34 5 by blast
qed

lemma pick_singles:
  assumes "finite (H :: Card set)" and "distinct ks" and "set ks \<subseteq> r ` H"
  shows "\<exists>H'. H' \<subseteq> H \<and> card H' = length ks \<and> r ` H' = set ks"
proof -
  let ?ds = "map (\<lambda>k. (k, 1::nat)) ks"
  have 1: "distinct (map fst ?ds)" using assms(2) by (simp add: comp_def)
  have 2: "\<forall>(k, m)\<in>set ?ds. m \<le> nR H k"
    using assms(3) nR_pos_iff[OF assms(1)] by (auto simp: Suc_le_eq)
  from pick_cards[OF assms(1) 1 2] obtain H' where H'c: "H' \<subseteq> H
    \<and> card H' = sum_list (map snd ?ds) \<and> (\<forall>(k, m)\<in>set ?ds. nR H' k = m)
    \<and> r ` H' \<subseteq> fst ` set ?ds" ..
  then have H': "H' \<subseteq> H"
    "card H' = sum_list (map snd ?ds)" "\<forall>(k, m)\<in>set ?ds. nR H' k = m" "r ` H' \<subseteq> fst ` set ?ds"
    by simp_all
  have fin: "finite H'" using H'(1) assms(1) by (rule finite_subset)
  have "sum_list (map snd ?ds) = length ks" by (induction ks) simp_all
  moreover have "r ` H' = set ks"
  proof
    show "r ` H' \<subseteq> set ks" using H'(4) by force
    show "set ks \<subseteq> r ` H'"
    proof
      fix k assume "k \<in> set ks"
      then have "nR H' k = 1" using H'(3) by auto
      then show "k \<in> r ` H'" using nR_pos_iff[OF fin, of k] by simp
    qed
  qed
  ultimately show ?thesis using H'(1,2) by auto
qed

lemma pick_group_singles:
  assumes "finite (H :: Card set)" and "m \<le> nR H t" and "distinct ks" and "set ks \<subseteq> r ` H - {t}"
  shows "\<exists>H'. H' \<subseteq> H \<and> card H' = m + length ks \<and> nR H' t = m \<and> set ks \<subseteq> r ` H'"
proof -
  let ?ds = "(t, m) # map (\<lambda>k. (k, 1::nat)) ks"
  have 1: "distinct (map fst ?ds)" using assms(3,4) by (auto simp: comp_def)
  have 2: "\<forall>(k, m)\<in>set ?ds. m \<le> nR H k"
    using assms(2,4) nR_pos_iff[OF assms(1)] by (auto simp: Suc_le_eq)
  from pick_cards[OF assms(1) 1 2] obtain H' where H'c: "H' \<subseteq> H
    \<and> card H' = sum_list (map snd ?ds) \<and> (\<forall>(k, m)\<in>set ?ds. nR H' k = m)
    \<and> r ` H' \<subseteq> fst ` set ?ds" ..
  then have H': "H' \<subseteq> H"
    "card H' = sum_list (map snd ?ds)" "\<forall>(k, m)\<in>set ?ds. nR H' k = m"
    by simp_all
  have fin: "finite H'" using H'(1) assms(1) by (rule finite_subset)
  have "sum_list (map snd (map (\<lambda>k. (k, 1::nat)) ks)) = length ks" by (induction ks) simp_all
  then have c: "card H' = m + length ks" using H'(2) by simp
  have t: "nR H' t = m" using H'(3) by simp
  have "set ks \<subseteq> r ` H'"
  proof
    fix k assume "k \<in> set ks"
    then have "nR H' k = 1" using H'(3) by auto
    then show "k \<in> r ` H'" using nR_pos_iff[OF fin, of k] by simp
  qed
  then show ?thesis using H'(1) c t by blast
qed

lemma pick_two_groups:
  assumes "finite (H :: Card set)" and "m1 \<le> nR H k1" and "m2 \<le> nR H k2" and "k1 \<noteq> k2"
  shows "\<exists>H'. H' \<subseteq> H \<and> card H' = m1 + m2 \<and> nR H' k1 = m1 \<and> nR H' k2 = m2"
proof -
  let ?ds = "[(k1, m1), (k2, m2)]"
  have 1: "distinct (map fst ?ds)" using assms(4) by simp
  have 2: "\<forall>(k, m)\<in>set ?ds. m \<le> nR H k" using assms(2,3) by simp
  from pick_cards[OF assms(1) 1 2] obtain H' where H'c: "H' \<subseteq> H
    \<and> card H' = sum_list (map snd ?ds) \<and> (\<forall>(k, m)\<in>set ?ds. nR H' k = m)
    \<and> r ` H' \<subseteq> fst ` set ?ds" ..
  then show ?thesis by (intro exI[of _ H']) simp
qed

lemma pick_three_groups:
  assumes "finite (H :: Card set)" and "m1 \<le> nR H k1" and "m2 \<le> nR H k2" and "m3 \<le> nR H k3"
    and "k1 \<noteq> k2" and "k1 \<noteq> k3" and "k2 \<noteq> k3"
  shows "\<exists>H'. H' \<subseteq> H \<and> card H' = m1 + m2 + m3 \<and> nR H' k1 = m1 \<and> nR H' k2 = m2 \<and> nR H' k3 = m3"
proof -
  let ?ds = "[(k1, m1), (k2, m2), (k3, m3)]"
  have 1: "distinct (map fst ?ds)" using assms(5,6,7) by simp
  have 2: "\<forall>(k, m)\<in>set ?ds. m \<le> nR H k" using assms(2,3,4) by simp
  from pick_cards[OF assms(1) 1 2] obtain H' where H'c: "H' \<subseteq> H
    \<and> card H' = sum_list (map snd ?ds) \<and> (\<forall>(k, m)\<in>set ?ds. nR H' k = m)
    \<and> r ` H' \<subseteq> fst ` set ?ds" ..
  then show ?thesis by (intro exI[of _ H']) simp
qed

lemma pick_window:
  assumes "finite (H :: Card set)" and "\<forall>k\<in>r ` H. 2 \<le> k \<and> k \<le> 14"
    and "x \<in> straightHighs (aceLow (r ` H))"
  shows "\<exists>H'. H' \<subseteq> H \<and> card H' = 5 \<and> x \<in> straightHighs (aceLow (r ` H'))"
proof -
  from straight_window[OF assms(2,3)] obtain W where W: "W \<subseteq> r ` H" "card W = 5"
    "x \<in> straightHighs (aceLow W)" by blast
  have finW: "finite W" using W(1) assms(1) by (auto intro: finite_subset)
  let ?ks = "sorted_list_of_set W"
  have ks: "distinct ?ks" "set ?ks = W" "length ?ks = 5" using finW W(2) by simp_all
  from pick_singles[OF assms(1) ks(1)] W(1) ks(2)
  obtain H' where "H' \<subseteq> H \<and> card H' = length ?ks \<and> r ` H' = set ?ks" by auto
  then show ?thesis using ks(2,3) W(3) by (intro exI[of _ H']) simp
qed

lemma suit_part_ranks: "r ` {c \<in> H. s c = t} = suitRanks H t"
  by (simp add: suitRanks_def)

lemma suit_part_suitRanks: "H' \<subseteq> {c \<in> H. s c = t} \<Longrightarrow> suitRanks H' t = r ` H'"
  unfolding suitRanks_def by (intro arg_cong[of _ _ "image r"]) auto

lemma realise:
  assumes fin: "finite H" and val: "\<forall>k\<in>r ` H. 2 \<le> k \<and> k \<le> 14" and a: "achieves H u"
  shows "\<exists>H'. H' \<subseteq> H \<and> card H' = 5 \<and> achieves H' u"
  using a
proof cases
  case (straightFlush x t)
  let ?Ht = "{c \<in> H. s c = t}"
  have f: "finite ?Ht" using fin by simp
  have v: "\<forall>k\<in>r ` ?Ht. 2 \<le> k \<and> k \<le> 14" using val by auto
  have "x \<in> straightHighs (aceLow (r ` ?Ht))" using straightFlush(2) by (simp add: suit_part_ranks)
  from pick_window[OF f v this] obtain H' where H': "H' \<subseteq> ?Ht" "card H' = 5"
    "x \<in> straightHighs (aceLow (r ` H'))" by blast
  have "x \<in> straightHighs (aceLow (suitRanks H' t))"
    using H'(3) suit_part_suitRanks[OF H'(1)] by simp
  then have "achieves H' u" unfolding straightFlush(1) by (rule achieves.straightFlush)
  then show ?thesis using H'(1,2) by (intro exI[of _ H']) auto
next
  case (quads q k)
  have "1 \<le> nR H k" using quads(3) nR_pos_iff[OF fin, of k] by simp
  from pick_two_groups[OF fin quads(2) this] quads(4)
  obtain H' where H': "H' \<subseteq> H \<and> card H' = 4 + 1 \<and> nR H' q = 4 \<and> nR H' k = 1" by auto
  have f': "finite H'" using H' fin by (auto intro: finite_subset)
  have "k \<in> r ` H'" using H' nR_pos_iff[OF f', of k] by simp
  then have "achieves H' u" unfolding quads(1) using H' quads(4) by (intro achieves.quads) simp_all
  then show ?thesis using H' by (intro exI[of _ H']) simp
next
  case (fullHouse t p)
  from pick_two_groups[OF fin fullHouse(2,3,4)]
  obtain H' where H': "H' \<subseteq> H \<and> card H' = 3 + 2 \<and> nR H' t = 3 \<and> nR H' p = 2" by auto
  have "achieves H' u" unfolding fullHouse(1) using H' fullHouse(4)
    by (intro achieves.fullHouse) simp_all
  then show ?thesis using H' by (intro exI[of _ H']) simp
next
  case (flush ks t)
  let ?Ht = "{c \<in> H. s c = t}"
  have f: "finite ?Ht" using fin by simp
  have sub: "set ks \<subseteq> r ` ?Ht" using flush(4) by (simp add: suit_part_ranks)
  from pick_singles[OF f desc_distinct[OF flush(3)] sub]
  obtain H' where H': "H' \<subseteq> ?Ht \<and> card H' = length ks \<and> r ` H' = set ks" by auto
  have "set ks \<subseteq> suitRanks H' t" using H' suit_part_suitRanks[of H' H t] by simp
  then have "achieves H' u" unfolding flush(1) using flush(2,3)
    by (intro achieves.flush[where t = t])
  then show ?thesis using H' flush(2) by (intro exI[of _ H']) auto
next
  case (straight x)
  from pick_window[OF fin val straight(2)] obtain H' where H': "H' \<subseteq> H" "card H' = 5"
    "x \<in> straightHighs (aceLow (r ` H'))" by blast
  have "achieves H' u" unfolding straight(1) using H'(3) by (rule achieves.straight)
  then show ?thesis using H'(1,2) by (intro exI[of _ H']) simp
next
  case (trips t ks)
  from pick_group_singles[OF fin trips(2) desc_distinct[OF trips(4)] trips(5)]
  obtain H' where H': "H' \<subseteq> H \<and> card H' = 3 + length ks \<and> nR H' t = 3 \<and> set ks \<subseteq> r ` H'"
    by auto
  have "set ks \<subseteq> r ` H' - {t}" using H' trips(5) by auto
  then have "achieves H' u" unfolding trips(1) using H' trips(3,4)
    by (intro achieves.trips) simp_all
  then show ?thesis using H' trips(3) by (intro exI[of _ H']) simp
next
  case (twoPair p1 p2 k)
  have k1: "1 \<le> nR H k" using twoPair(5) nR_pos_iff[OF fin, of k] by simp
  have ne: "p1 \<noteq> p2" "p1 \<noteq> k" "p2 \<noteq> k" using twoPair(4,5) by auto
  from pick_three_groups[OF fin twoPair(2,3) k1 ne]
  obtain H' where H': "H' \<subseteq> H \<and> card H' = 2 + 2 + 1 \<and> nR H' p1 = 2 \<and> nR H' p2 = 2 \<and> nR H' k = 1"
    by auto
  have f': "finite H'" using H' fin by (auto intro: finite_subset)
  have "k \<in> r ` H'" using H' nR_pos_iff[OF f', of k] by simp
  then have "k \<in> r ` H' - {p1, p2}" using ne by simp
  then have "achieves H' u" unfolding twoPair(1) using H' twoPair(4)
    by (intro achieves.twoPair) simp_all
  then show ?thesis using H' by (intro exI[of _ H']) simp
next
  case (pair p ks)
  from pick_group_singles[OF fin pair(2) desc_distinct[OF pair(4)] pair(5)]
  obtain H' where H': "H' \<subseteq> H \<and> card H' = 2 + length ks \<and> nR H' p = 2 \<and> set ks \<subseteq> r ` H'"
    by auto
  have "set ks \<subseteq> r ` H' - {p}" using H' pair(5) by auto
  then have "achieves H' u" unfolding pair(1) using H' pair(3,4)
    by (intro achieves.pair) simp_all
  then show ?thesis using H' pair(3) by (intro exI[of _ H']) simp
next
  case (highCard ks)
  from pick_singles[OF fin desc_distinct[OF highCard(3)] highCard(4)]
  obtain H' where H': "H' \<subseteq> H \<and> card H' = length ks \<and> r ` H' = set ks" by auto
  have "achieves H' u" unfolding highCard(1) using H' highCard(2,3)
    by (intro achieves.highCard) simp_all
  then show ?thesis using H' highCard(2) by (intro exI[of _ H']) simp
qed

subsection \<open>The evaluator on exactly five cards\<close>

lemma groupKey_inj: "inj groupKey"
  by (auto simp: inj_on_def groupKey_def)

lemma count_list_cntRank: "int (count_list (map r h) k) = cntRank h k"
  by (induction h) (auto simp: cntRank_def)

lemma rankGroups_eq:
  "rankGroups h = sort_key groupKey (map (\<lambda>k. (k, cntRank h k)) (remdups (map r h)))"
  by (simp add: rankGroups_def groupKey_def count_list_cntRank)

lemma rankGroups_set: "set (rankGroups h) = {(k, cntRank h k) | k. k \<in> r ` set h}"
  by (auto simp: rankGroups_eq)

lemma rankGroups_distinct: "distinct (rankGroups h)"
proof -
  have "inj_on (\<lambda>k. (k, cntRank h k)) (set (remdups (map r h)))" by (auto simp: inj_on_def)
  then have "distinct (map (\<lambda>k. (k, cntRank h k)) (remdups (map r h)))"
    by (simp add: distinct_map)
  then show ?thesis by (simp add: rankGroups_eq)
qed

lemma rankGroups_sorted: "sorted (map groupKey (rankGroups h))"
  by (simp add: rankGroups_eq)

lemma cnt_range:
  assumes "validHand h" and "k \<in> r ` set h"
  shows "cntRank h k \<in> {1, 2, 3, 4}"
proof -
  have d: "distinct h" using assms(1) by (rule validHand_distinct)
  have "0 < nR (set h) k" using assms(2) nR_pos_iff[of "set h" k] by simp
  moreover have "nR (set h) k \<le> 4" using assms(1) by (rule validHand_nR_le4)
  ultimately have "nR (set h) k \<in> {1, 2, 3, 4}" by auto
  then show ?thesis using cntRank_nR[OF d, of k] by auto
qed

lemma blocks_set:
  assumes "validHand h"
  shows "set (blocks h) = {(k, cntRank h k) | k. k \<in> r ` set h}"
proof (intro set_eqI iffI)
  fix x assume "x \<in> set (blocks h)"
  then show "x \<in> {(k, cntRank h k) | k. k \<in> r ` set h}"
    by (auto simp: blocks_def rws_set)
next
  fix x assume "x \<in> {(k, cntRank h k) | k. k \<in> r ` set h}"
  then obtain k where x: "x = (k, cntRank h k)" and k: "k \<in> r ` set h" by blast
  from cnt_range[OF assms k] show "x \<in> set (blocks h)"
    using k x by (auto simp: blocks_def rws_set image_iff)
qed

lemma block_sorted: "sorted_wrt (>) (L :: int list) \<Longrightarrow> sorted (map groupKey (map (\<lambda>k. (k, n)) L))"
  by (induction L) (auto simp: groupKey_def)

lemma blocks_sorted: "sorted (map groupKey (blocks h))"
  unfolding blocks_def map_append sorted_append
  using block_sorted[OF rws_desc, of 4 h 4] block_sorted[OF rws_desc, of 3 h 3]
    block_sorted[OF rws_desc, of 2 h 2] block_sorted[OF rws_desc, of 1 h 1]
  by (auto simp: groupKey_def)

lemma blocks_distinct: "distinct (blocks h)"
  unfolding blocks_def using rws_distinct[of h 4] rws_distinct[of h 3] rws_distinct[of h 2]
    rws_distinct[of h 1]
  by (auto simp: distinct_map inj_on_def)

lemma rankGroups_blocks:
  assumes "validHand h"
  shows "rankGroups h = blocks h"
proof -
  have inj: "inj_on groupKey A" for A using groupKey_inj by (rule inj_on_subset) simp
  have "map groupKey (rankGroups h) = map groupKey (blocks h)"
  proof (rule sorted_distinct_set_unique)
    show "sorted (map groupKey (rankGroups h))" by (rule rankGroups_sorted)
    show "sorted (map groupKey (blocks h))" by (rule blocks_sorted)
    show "distinct (map groupKey (rankGroups h))"
      using rankGroups_distinct inj by (simp add: distinct_map)
    show "distinct (map groupKey (blocks h))"
      using blocks_distinct inj by (simp add: distinct_map)
    show "set (map groupKey (rankGroups h)) = set (map groupKey (blocks h))"
      by (simp add: rankGroups_set blocks_set[OF assms])
  qed
  then show ?thesis using groupKey_inj by (simp add: inj_map_eq_map)
qed

lemma counts_sum: "sum_list (map snd (rankGroups h)) = int (length h)"
proof -
  let ?xs = "map (\<lambda>k. (k, cntRank h k)) (remdups (map r h))"
  have "sum_list (map snd (rankGroups h)) = sum snd (set (rankGroups h))"
    using rankGroups_distinct by (rule sum_list_distinct_conv_sum_set)
  also have "\<dots> = sum snd (set ?xs)" by (simp add: rankGroups_eq)
  also have "\<dots> = sum_list (map snd ?xs)"
  proof -
    have "inj_on (\<lambda>k. (k, cntRank h k)) (set (remdups (map r h)))" by (auto simp: inj_on_def)
    then have "distinct ?xs" by (simp add: distinct_map)
    then show ?thesis by (rule sum_list_distinct_conv_sum_set[symmetric])
  qed
  also have "\<dots> = sum_list (map (\<lambda>k. int (count_list (map r h) k)) (remdups (map r h)))"
    by (simp add: comp_def count_list_cntRank)
  also have "\<dots> = int (sum_list (map (count_list (map r h)) (remdups (map r h))))"
  proof -
    have "sum_list (map (\<lambda>k. int (f k)) L) = int (sum_list (map f L))" for f :: "int \<Rightarrow> nat" and L
      by (induction L) simp_all
    then show ?thesis .
  qed
  also have "sum_list (map (count_list (map r h)) (remdups (map r h)))
      = sum (count_list (map r h)) (set (map r h))"
    using sum_list_distinct_conv_sum_set[of "remdups (map r h)" "count_list (map r h)"] by simp
  also have "\<dots> = length (map r h)" by (intro sum_count_set) simp_all
  finally show ?thesis by simp
qed

lemma blocks_sum:
  "sum_list (map snd (blocks h))
     = 4 * int (length (rws h 4)) + 3 * int (length (rws h 3)) + 2 * int (length (rws h 2))
       + int (length (rws h 1))"
proof -
  have "sum_list (map snd (map (\<lambda>k. (k, n)) L)) = n * int (length L)" for n :: int and L :: "int list"
    by (induction L) (simp_all add: algebra_simps)
  then show ?thesis by (simp add: blocks_def)
qed

lemma group_sizes:
  assumes "validHand h"
  shows "4 * length (rws h 4) + 3 * length (rws h 3) + 2 * length (rws h 2) + length (rws h 1)
           = length h"
  using counts_sum[of h] blocks_sum[of h] rankGroups_blocks[OF assms] by simp

lemma filter_all:
  assumes "length xs \<le> length (filter P xs)"
  shows "\<forall>x\<in>set xs. P x"
proof -
  have "length (filter (\<lambda>x. \<not> P x) xs) = 0"
    using sum_length_filter_compl[of P xs] assms by linarith
  then have "filter (\<lambda>x. \<not> P x) xs = []" by simp
  then show ?thesis by (simp add: filter_empty_conv)
qed

lemma suit5:
  assumes "length h = 5" and "5 \<le> length (suitCards h t)"
  shows "suitCards h t = h" and "isFlush5 h"
proof -
  have "length h \<le> length (filter (\<lambda>c. s c = t) h)"
    using assms unfolding suitCards_def by linarith
  then have all: "\<forall>c\<in>set h. s c = t" by (rule filter_all)
  then show "suitCards h t = h" unfolding suitCards_def by (simp only: filter_id_conv)
  have "h \<noteq> []" using assms(1) by auto
  then have "hd h \<in> set h" by simp
  then have "s (hd h) = t" using all by blast
  then show "isFlush5 h" using all unfolding isFlush5_def list_all_iff by simp
qed

lemma flush5_group:
  assumes "length h = 5" and "isFlush5 h"
  shows "suitCards h (s (hd h)) = h"
  using assms(2) by (simp add: isFlush5_def list_all_iff suitCards_def)

lemma flushGroup5:
  assumes "length h = 5"
  shows "flushGroup (suitGroups h) = (if isFlush5 h then Some h else None)"
proof (cases "flushGroup (suitGroups h)")
  case None
  have "\<not> isFlush5 h"
  proof
    assume "isFlush5 h"
    then have "length (suitCards h (s (hd h))) = 5" using flush5_group[OF assms] assms by simp
    then show False using fg_None[OF None, of "s (hd h)"] by simp
  qed
  then show ?thesis using None by simp
next
  case (Some g)
  from fg_Some[OF Some] obtain t where t: "g = suitCards h t" "5 \<le> length g" by blast
  then have "g = h" "isFlush5 h" using suit5[OF assms, of t] by simp_all
  then show ?thesis using Some by simp
qed

lemma straightFlush5:
  assumes "length h = 5"
  shows "straightFlushHigh (suitGroups h) =
     (if isFlush5 h \<and> 0 < bestStraightHigh (remdups (map r h))
      then Some (bestStraightHigh (remdups (map r h))) else None)"
proof (cases "straightFlushHigh (suitGroups h)")
  case None
  have "\<not> (isFlush5 h \<and> 0 < bestStraightHigh (remdups (map r h)))"
  proof
    assume a: "isFlush5 h \<and> 0 < bestStraightHigh (remdups (map r h))"
    then have g: "suitCards h (s (hd h)) = h" using flush5_group[OF assms] by simp
    then have "5 \<le> length (suitCards h (s (hd h)))" using assms by simp
    from sf_None[OF None this] show False using a g by simp
  qed
  then show ?thesis using None by simp
next
  case (Some x)
  from sf_Some[OF Some] obtain t where t: "5 \<le> length (suitCards h t)"
    "x = bestStraightHigh (remdups (map r (suitCards h t)))" "0 < x" by blast
  have "suitCards h t = h" "isFlush5 h" using suit5[OF assms t(1)] by simp_all
  then show ?thesis using Some t(2,3) by simp
qed

lemma straight_window_form:
  assumes "\<forall>k\<in>A. 2 \<le> k \<and> k \<le> 14" and "x \<in> straightHighs (aceLow A)"
  shows "{x - 4 .. x} \<subseteq> A \<or> (x = 5 \<and> {2, 3, 4, 5, 14} \<subseteq> A)"
proof -
  have win: "{x - 4 .. x} \<subseteq> aceLow A" using assms(2) by (simp add: straightHighs_def)
  have ace: "aceLow A \<subseteq> insert 1 A" by (auto simp: aceLow_def)
  show ?thesis
  proof (cases "1 \<in> {x - 4 .. x}")
    case True
    then have "x \<le> 5" by simp
    have "x - 4 \<in> {x - 4 .. x}" by simp
    then have "x - 4 \<in> insert 1 A" using win ace by blast
    then have "1 \<le> x - 4" using assms(1) by auto
    with \<open>x \<le> 5\<close> have x: "x = 5" by simp
    have "1 \<in> aceLow A" using win True by blast
    moreover have "1 \<notin> A" using assms(1) by auto
    ultimately have a14: "14 \<in> A" by (auto simp: aceLow_def split: if_splits)
    have mem: "k \<in> A" if "k \<in> {2, 3, 4, 5}" for k
    proof -
      have "k \<in> {x - 4 .. x}" using that x by auto
      then have "k \<in> insert 1 A" using win ace by blast
      then show ?thesis using that by auto
    qed
    have "{2, 3, 4, 5, 14} \<subseteq> A" using mem a14 by auto
    then show ?thesis using x by simp
  next
    case False
    then have "{x - 4 .. x} \<subseteq> A" using win ace by blast
    then show ?thesis by simp
  qed
qed

lemma sorted_bounds:
  assumes "sorted (xs :: int list)" and "x \<in> set xs"
  shows "hd xs \<le> x" and "x \<le> last xs"
proof -
  show "hd xs \<le> x" using assms by (cases xs) auto
  show "x \<le> last xs" using assms by (induction xs) (auto split: if_splits)
qed

lemma five_straight_form:
  assumes fin: "finite R" and c: "card R \<le> 5" and val: "\<forall>k\<in>R. 2 \<le> k \<and> k \<le> 14"
    and x: "x \<in> straightHighs (aceLow R)"
  shows "R = {x - 4 .. x} \<or> (x = 5 \<and> R = {2, 3, 4, 5, 14})"
proof -
  from straight_window_form[OF val x] show ?thesis
  proof
    assume sub: "{x - 4 .. x} \<subseteq> R"
    have "card {x - 4 .. x} = 5" by simp
    then have "{x - 4 .. x} = R" using fin sub c by (intro card_seteq) simp_all
    then show ?thesis by simp
  next
    assume a: "x = 5 \<and> {2, 3, 4, 5, 14} \<subseteq> R"
    have "card {2, 3, 4, 5, 14 :: int} = 5" by simp
    then have "{2, 3, 4, 5, 14} = R" using fin a c by (intro card_seteq) simp_all
    then show ?thesis using a by simp
  qed
qed

lemma interval_straight: "x \<in> straightHighs (aceLow {x - 4 .. x})"
  by (auto simp: straightHighs_def aceLow_def)

lemma wheel_straight: "5 \<in> straightHighs (aceLow {2, 3, 4, 5, 14})"
  by (auto simp: straightHighs_def aceLow_def)

lemma straight5:
  assumes v: "validHand h" and len: "length h = 5" and xs: "set xs = r ` set h"
  shows "bestStraightHigh xs = straightHigh5 h"
proof -
  let ?rs = "sort (map r h)"
  let ?R = "r ` set h"
  have set_rs: "set ?rs = ?R" by simp
  have len_rs: "length ?rs = 5" using len by simp
  have "length ?rs \<noteq> 0" using len_rs by linarith
  then have ne: "?rs \<noteq> []" by (simp only: length_0_conv not_False_eq_True)
  have srt: "sorted ?rs" by simp
  have fin: "finite ?R" by simp
  have cardR: "card ?R \<le> 5" using card_length[of ?rs] len_rs set_rs by simp
  have val: "\<forall>k\<in>?R. 2 \<le> k \<and> k \<le> 14" using validHand_rank[OF v] by blast
  have val1: "\<forall>k\<in>set xs. 1 \<le> k" using val xs by auto
  have best: "bestStraightHigh xs = Max (insert 0 (straightHighs (aceLow ?R)))"
    using bestStraightHigh_eq[OF val1] xs by simp
  have hdin: "hd ?rs \<in> ?R" and lastin: "last ?rs \<in> ?R"
    using ne set_rs hd_in_set[OF ne] last_in_set[OF ne] by auto
  have form: "?R = {y - 4 .. y} \<or> (y = 5 \<and> ?R = {2, 3, 4, 5, 14})"
    if "y \<in> straightHighs (aceLow ?R)" for y
    using fin cardR val that by (rule five_straight_form)
  have interval: "distinct ?rs \<and> hd ?rs = y - 4 \<and> last ?rs = y" if R: "?R = {y - 4 .. y}" for y
  proof -
    have "card ?R = 5" using R by simp
    then have d: "distinct ?rs" using len_rs set_rs card_distinct[of ?rs] by simp
    have "y - 4 \<in> set ?rs" "y \<in> set ?rs" using R set_rs by auto
    then have "hd ?rs \<le> y - 4" "y \<le> last ?rs" using sorted_bounds[OF srt] by blast+
    moreover have "y - 4 \<le> hd ?rs" "last ?rs \<le> y" using hdin lastin R by auto
    ultimately show ?thesis using d by simp
  qed
  show ?thesis
  proof (cases "distinct ?rs \<and> last ?rs - hd ?rs = 4")
    case A: True
    let ?x = "last ?rs"
    have sub: "?R \<subseteq> {?x - 4 .. ?x}"
    proof
      fix k assume "k \<in> ?R"
      then have "k \<in> set ?rs" by simp
      then have "hd ?rs \<le> k" "k \<le> ?x" using sorted_bounds[OF srt] by blast+
      then show "k \<in> {?x - 4 .. ?x}" using A by simp
    qed
    have "card ?R = 5" using A len_rs set_rs distinct_card[of ?rs] by simp
    then have R: "?R = {?x - 4 .. ?x}" using sub by (intro card_seteq) simp_all
    have mem: "?x \<in> straightHighs (aceLow ?R)" using interval_straight[of ?x] R by simp
    have only: "y = ?x" if "y \<in> straightHighs (aceLow ?R)" for y
    proof -
      from form[OF that] show ?thesis
      proof
        assume "?R = {y - 4 .. y}"
        then show ?thesis using interval[of y] by simp
      next
        assume w: "y = 5 \<and> ?R = {2, 3, 4, 5, 14}"
        then have e: "{2, 3, 4, 5, 14} = {?x - 4 .. ?x}" using R by simp
        have "(2::int) \<in> {2, 3, 4, 5, 14}" "(14::int) \<in> {2, 3, 4, 5, 14}" by simp_all
        then have "(2::int) \<in> {?x - 4 .. ?x}" "(14::int) \<in> {?x - 4 .. ?x}" unfolding e .
        then show ?thesis by simp
      qed
    qed
    have eq: "straightHighs (aceLow ?R) = {?x}"
    proof (intro equalityI subsetI)
      fix y assume "y \<in> straightHighs (aceLow ?R)"
      then have "y = ?x" by (rule only)
      then show "y \<in> {?x}" by simp
    next
      fix y assume "y \<in> {?x}"
      then show "y \<in> straightHighs (aceLow ?R)" using mem by simp
    qed
    have "2 \<le> ?x" using val lastin by blast
    then have "Max (insert 0 {?x}) = ?x" by simp
    then have "bestStraightHigh xs = ?x" unfolding best eq .
    moreover have "straightHigh5 h = ?x"
    proof -
      have c1: "(distinct ?rs \<and> last ?rs - hd ?rs = 4) = True" using A by blast
      show ?thesis unfolding straightHigh5_def Let_def c1 by simp
    qed
    ultimately show ?thesis by simp
  next
    case notA: False
    show ?thesis
    proof (cases "?rs = [2, 3, 4, 5, 14]")
      case B: True
      have R: "?R = {2, 3, 4, 5, 14}" using arg_cong[OF B, of set] by simp
      have mem: "5 \<in> straightHighs (aceLow ?R)" using wheel_straight R by simp
      have only: "y = 5" if "y \<in> straightHighs (aceLow ?R)" for y
      proof -
        from form[OF that] show ?thesis
        proof
          assume "?R = {y - 4 .. y}"
          then have e: "{2, 3, 4, 5, 14} = {y - 4 .. y}" using R by simp
          have "(2::int) \<in> {2, 3, 4, 5, 14}" "(14::int) \<in> {2, 3, 4, 5, 14}" by simp_all
          then have "(2::int) \<in> {y - 4 .. y}" "(14::int) \<in> {y - 4 .. y}" unfolding e .
          then show ?thesis by simp
        qed simp
      qed
      have eq: "straightHighs (aceLow ?R) = {5}"
      proof (intro equalityI subsetI)
        fix y assume "y \<in> straightHighs (aceLow ?R)"
        then have "y = 5" by (rule only)
        then show "y \<in> {5}" by simp
      next
        fix y :: int assume "y \<in> {5}"
        then show "y \<in> straightHighs (aceLow ?R)" using mem by simp
      qed
      have "Max (insert 0 {5::int}) = 5" by simp
      then have "bestStraightHigh xs = 5" unfolding best eq .
      moreover have "straightHigh5 h = 5"
      proof -
        have c1: "(distinct ?rs \<and> last ?rs - hd ?rs = 4) = False" using notA by blast
        have c2: "(?rs = [2, 3, 4, 5, 14]) = True" using B by blast
        show ?thesis unfolding straightHigh5_def Let_def c1 c2 by simp
      qed
      ultimately show ?thesis by simp
    next
      case notB: False
      have "straightHighs (aceLow ?R) = {}"
      proof (rule ccontr)
        assume "straightHighs (aceLow ?R) \<noteq> {}"
        then obtain y where y: "y \<in> straightHighs (aceLow ?R)" by blast
        from form[OF y] show False
        proof
          assume "?R = {y - 4 .. y}"
          then show False using interval[of y] notA by simp
        next
          assume w: "y = 5 \<and> ?R = {2, 3, 4, 5, 14}"
          then have "card ?R = 5" by simp
          then have d: "distinct ?rs" using len_rs set_rs card_distinct[of ?rs] by simp
          have "?rs = [2, 3, 4, 5, 14]"
            using srt d w set_rs by (intro sorted_distinct_set_unique) simp_all
          then show False using notB by simp
        qed
      qed
      then have "bestStraightHigh xs = 0" unfolding best by simp
      moreover have "straightHigh5 h = 0"
      proof -
        have c1: "(distinct ?rs \<and> last ?rs - hd ?rs = 4) = False" using notA by blast
        have c2: "(?rs = [2, 3, 4, 5, 14]) = False" using notB by blast
        show ?thesis unfolding straightHigh5_def Let_def c1 c2 by simp
      qed
      ultimately show ?thesis by simp
    qed
  qed
qed

lemma desc_unique:
  assumes "sorted_wrt (>) (xs :: int list)" and "sorted_wrt (>) ys" and "set xs = set ys"
  shows "xs = ys"
proof -
  have "rev xs = rev ys"
    using assms by (intro sorted_distinct_set_unique) (simp_all add: desc_iff)
  then show ?thesis by simp
qed

lemma cnt1_iff:
  assumes "validHand h" and "c \<in> set h"
  shows "(cntRank h (r c) = 1) =
     (r c \<notin> set (rws h 4) \<and> r c \<notin> set (rws h 3) \<and> r c \<notin> set (rws h 2))"
  using cnt_range[OF assms(1), of "r c"] assms(2) by (auto simp: rws_set)

lemma singles_kickers:
  assumes v: "validHand h" and P: "\<forall>c\<in>set h. P c = (cntRank h (r c) = 1)"
  shows "sortDesc (map r (filter P h)) = rws h 1"
proof (rule desc_unique)
  have d: "distinct h" using v by (rule validHand_distinct)
  have "\<forall>c\<in>set h. P c \<longrightarrow> nR (set h) (r c) \<le> 1" using P cntRank_nR[OF d] by auto
  then have "distinct (map r (filter P h))" using d by (intro singles_distinct) simp_all
  then show "sorted_wrt (>) (sortDesc (map r (filter P h)))" by (rule sortDesc_desc)
  show "sorted_wrt (>) (rws h 1)" by (rule rws_desc)
  show "set (sortDesc (map r (filter P h))) = set (rws h 1)"
    using P by (auto simp: sortDesc_set rws_set)
qed

lemma flush_distinct_ranks:
  assumes "validHand h" and "length h = 5" and "isFlush5 h"
  shows "distinct (map r h)"
proof -
  have "suitCards h (s (hd h)) = h" using assms(2,3) by (rule flush5_group)
  then show ?thesis
    using suitCards_distinct_ranks[OF validHand_distinct[OF assms(1)], of "s (hd h)"] by simp
qed

lemma straight5_distinct_ranks:
  assumes "0 < straightHigh5 h"
  shows "distinct (map r h)"
proof -
  have "distinct (sort (map r h))"
  proof (rule ccontr)
    assume n: "\<not> distinct (sort (map r h))"
    have "sort (map r h) \<noteq> [2, 3, 4, 5, 14]"
    proof
      assume e: "sort (map r h) = [2, 3, 4, 5, 14]"
      have "distinct [2, 3, 4, 5, 14 :: int]" by simp
      then have "distinct (sort (map r h))" by (simp only: e)
      with n show False by blast
    qed
    then have c2: "(sort (map r h) = [2, 3, 4, 5, 14]) = False" by blast
    have c1: "(distinct (sort (map r h)) \<and> last (sort (map r h)) - hd (sort (map r h)) = 4) = False"
      using n by blast
    have "straightHigh5 h = 0" unfolding straightHigh5_def Let_def c1 c2 by simp
    then show False using assms by simp
  qed
  then show ?thesis by simp
qed

lemma distinct_ranks_singles:
  assumes "validHand h" and "distinct (map r h)"
  shows "rws h 4 = []" and "rws h 3 = []" and "rws h 2 = []"
proof -
  have cl: "distinct xs \<Longrightarrow> count_list xs k \<le> 1" for xs :: "int list" and k
    by (induction xs) auto
  have one: "cntRank h k \<le> 1" for k
    using cl[OF assms(2), of k] count_list_cntRank[of h k] by simp
  have no: "cntRank h k \<noteq> n" if "2 \<le> n" for k n
    using one[of k] that by linarith
  have "set (rws h 4) = {}" using no[of 4] by (auto simp: rws_set)
  then show "rws h 4 = []" by simp
  have "set (rws h 3) = {}" using no[of 3] by (auto simp: rws_set)
  then show "rws h 3 = []" by simp
  have "set (rws h 2) = {}" using no[of 2] by (auto simp: rws_set)
  then show "rws h 2 = []" by simp
qed

lemma list1: "length L = 1 \<Longrightarrow> \<exists>a. L = [a]"
  by (cases L) auto

lemma list2: "length L = 2 \<Longrightarrow> \<exists>a b. L = [a, b]"
  by (cases L; cases "tl L") auto

lemma list3: "length L = 3 \<Longrightarrow> \<exists>a b c. L = [a, b, c]"
  by (cases L; cases "tl L"; cases "tl (tl L)") auto

lemma list5: "length L = 5 \<Longrightarrow> \<exists>a b c d e. L = [a, b, c, d, e]"
  by (cases L; cases "tl L"; cases "tl (tl L)"; cases "tl (tl (tl L))";
      cases "tl (tl (tl (tl L)))") auto

lemma evaluate5_form:
  assumes v: "validHand h" and len: "length h = 5"
  shows "evaluate h =
     (if isFlush5 h \<and> 0 < straightHigh5 h then [Some 8, Some (straightHigh5 h)]
      else if rws h 4 \<noteq> [] then
        [Some 7, Some (rws h 4 ! 0),
         atNum (topNDesc (map r (filter (\<lambda>c. r c \<noteq> rws h 4 ! 0) h)) 1) 0]
      else if length (rws h 3) \<ge> 2 \<or> (length (rws h 3) \<ge> 1 \<and> length (rws h 2) \<ge> 1) then
        [Some 6, Some (rws h 3 ! 0),
         Some (if length (rws h 3) \<ge> 2 then rws h 3 ! 1 else rws h 2 ! 0)]
      else if isFlush5 h then Some 5 # map Some (topNDesc (map r h) 5)
      else if 0 < straightHigh5 h then [Some 4, Some (straightHigh5 h)]
      else if rws h 3 \<noteq> [] then
        Some 3 # Some (rws h 3 ! 0)
          # map Some (topNDesc (map r (filter (\<lambda>c. r c \<noteq> rws h 3 ! 0) h)) 2)
      else if length (rws h 2) \<ge> 2 then
        [Some 2, Some (rws h 2 ! 0), Some (rws h 2 ! 1),
         atNum (topNDesc (map r (filter (\<lambda>c. r c \<noteq> rws h 2 ! 0 \<and> r c \<noteq> rws h 2 ! 1) h)) 1) 0]
      else if length (rws h 2) = 1 then
        Some 1 # Some (rws h 2 ! 0)
          # map Some (topNDesc (map r (filter (\<lambda>c. r c \<noteq> rws h 2 ! 0) h)) 3)
      else Some 0 # map Some (topNDesc (map r h) 5))"
proof -
  have s1: "bestStraightHigh (remdups (map r h)) = straightHigh5 h"
    using v len by (intro straight5) simp_all
  have s2: "bestStraightHigh (sort (remdups (map r h))) = straightHigh5 h"
    using v len by (intro straight5) simp_all
  show ?thesis
    unfolding evaluate_unfold[of h] straightFlush5[OF len] flushGroup5[OF len] s1 s2
    by simp
qed

lemma eval5_form:
  assumes v: "validHand h"
  shows "eval5 h =
     (if isFlush5 h \<and> 0 < straightHigh5 h then [Some 8, Some (straightHigh5 h)]
      else if map snd (blocks h) = [4, 1] then Some 7 # map (\<lambda>(k, n). Some k) (blocks h)
      else if map snd (blocks h) = [3, 2] then Some 6 # map (\<lambda>(k, n). Some k) (blocks h)
      else if isFlush5 h then Some 5 # map (\<lambda>(k, n). Some k) (blocks h)
      else if 0 < straightHigh5 h then [Some 4, Some (straightHigh5 h)]
      else if map snd (blocks h) = [3, 1, 1] then Some 3 # map (\<lambda>(k, n). Some k) (blocks h)
      else if map snd (blocks h) = [2, 2, 1] then Some 2 # map (\<lambda>(k, n). Some k) (blocks h)
      else if map snd (blocks h) = [2, 1, 1, 1] then Some 1 # map (\<lambda>(k, n). Some k) (blocks h)
      else Some 0 # map (\<lambda>(k, n). Some k) (blocks h))"
  unfolding eval5_def Let_def rankGroups_blocks[OF v] by simp

lemma grouped_no_flush_straight:
  assumes v: "validHand h" and len: "length h = 5"
    and g: "rws h 4 \<noteq> [] \<or> rws h 3 \<noteq> [] \<or> rws h 2 \<noteq> []"
  shows "isFlush5 h = False" and "(0 < straightHigh5 h) = False"
proof -
  have nd: "\<not> distinct (map r h)" using distinct_ranks_singles[OF v] g by blast
  show "isFlush5 h = False" using flush_distinct_ranks[OF v len] nd by blast
  show "(0 < straightHigh5 h) = False" using straight5_distinct_ranks[of h] nd by blast
qed

lemma agree_singles:
  assumes v: "validHand h" and len: "length h = 5"
    and q: "rws h 4 = []" and t: "rws h 3 = []" and p: "rws h 2 = []"
  shows "eval5 h = evaluate h"
proof -
  have "length (rws h 1) = 5" using group_sizes[OF v] len q t p by simp
  from list5[OF this] obtain a b c d e where S: "rws h 1 = [a, b, c, d, e]" by blast
  have "\<forall>c\<in>set h. True = (cntRank h (r c) = 1)" using cnt1_iff[OF v] q t p by simp
  from singles_kickers[OF v this] have sd: "sortDesc (map r h) = [a, b, c, d, e]" using S by simp
  have top: "topNDesc (map r h) 5 = [a, b, c, d, e]" by (simp add: topNDesc_def sd)
  have bl: "blocks h = [(a, 1), (b, 1), (c, 1), (d, 1), (e, 1)]" by (simp add: blocks_def q t p S)
  show ?thesis
    unfolding eval5_form[OF v] evaluate5_form[OF v len] q t p top bl by simp
qed

lemma agree_quads:
  assumes v: "validHand h" and len: "length h = 5" and q: "rws h 4 \<noteq> []"
  shows "eval5 h = evaluate h"
proof -
  note nfs = grouped_no_flush_straight[OF v len disjI1[OF q]]
  have "length (rws h 4) \<noteq> 0" using q by simp
  then have l: "length (rws h 4) = 1" "length (rws h 3) = 0" "length (rws h 2) = 0"
    "length (rws h 1) = 1" using group_sizes[OF v] len by presburger+
  from list1[OF l(1)] obtain a where Q: "rws h 4 = [a]" by blast
  from list1[OF l(4)] obtain b where S: "rws h 1 = [b]" by blast
  have T: "rws h 3 = []" and P: "rws h 2 = []" using l(2,3) by simp_all
  have "\<forall>c\<in>set h. (r c \<noteq> a) = (cntRank h (r c) = 1)" using cnt1_iff[OF v] Q T P by simp
  from singles_kickers[OF v this]
  have sd: "sortDesc (map r (filter (\<lambda>c. r c \<noteq> a) h)) = [b]" using S by simp
  have k: "atNum (topNDesc (map r (filter (\<lambda>c. r c \<noteq> a) h)) 1) 0 = Some b"
    by (simp add: topNDesc_def sd atNum_def)
  have bl: "blocks h = [(a, 4), (b, 1)]" by (simp add: blocks_def Q T P S)
  have "evaluate h = [Some 7, Some a, Some b]"
    unfolding evaluate5_form[OF v len] nfs Q nth_Cons_0 k by simp
  moreover have "eval5 h = [Some 7, Some a, Some b]"
    unfolding eval5_form[OF v] nfs bl by simp
  ultimately show ?thesis by simp
qed

lemma agree_trips:
  assumes v: "validHand h" and len: "length h = 5" and q: "rws h 4 = []" and t: "rws h 3 \<noteq> []"
  shows "eval5 h = evaluate h"
proof -
  note nfs = grouped_no_flush_straight[OF v len disjI2[OF disjI1[OF t]]]
  have "length (rws h 3) \<noteq> 0" using t by simp
  then have l3: "length (rws h 3) = 1" using group_sizes[OF v] len by presburger
  from list1[OF l3] obtain a where T: "rws h 3 = [a]" by blast
  have sum: "2 * length (rws h 2) + length (rws h 1) = 2" using group_sizes[OF v] len q l3 by simp
  show ?thesis
  proof (cases "rws h 2 = []")
    case P: True
    then have "length (rws h 1) = 2" using sum by simp
    from list2[OF this] obtain b c where S: "rws h 1 = [b, c]" by blast
    have "\<forall>c\<in>set h. (r c \<noteq> a) = (cntRank h (r c) = 1)" using cnt1_iff[OF v] q T P by simp
    from singles_kickers[OF v this]
    have sd: "sortDesc (map r (filter (\<lambda>c. r c \<noteq> a) h)) = [b, c]" using S by simp
    have k: "topNDesc (map r (filter (\<lambda>c. r c \<noteq> a) h)) 2 = [b, c]"
      by (simp add: topNDesc_def sd)
    have bl: "blocks h = [(a, 3), (b, 1), (c, 1)]" by (simp add: blocks_def q T P S)
    have "evaluate h = [Some 3, Some a, Some b, Some c]"
      unfolding evaluate5_form[OF v len] nfs q T P nth_Cons_0 k by simp
    moreover have "eval5 h = [Some 3, Some a, Some b, Some c]"
      unfolding eval5_form[OF v] nfs bl by simp
    ultimately show ?thesis by simp
  next
    case False
    then have "length (rws h 2) \<noteq> 0" by simp
    then have l: "length (rws h 2) = 1" "length (rws h 1) = 0" using sum by presburger+
    from list1[OF l(1)] obtain b where P: "rws h 2 = [b]" by blast
    have S: "rws h 1 = []" using l(2) by simp
    have bl: "blocks h = [(a, 3), (b, 2)]" by (simp add: blocks_def q T P S)
    have "evaluate h = [Some 6, Some a, Some b]"
      unfolding evaluate5_form[OF v len] nfs q T P by simp
    moreover have "eval5 h = [Some 6, Some a, Some b]"
      unfolding eval5_form[OF v] nfs bl by simp
    ultimately show ?thesis by simp
  qed
qed

lemma agree_pairs:
  assumes v: "validHand h" and len: "length h = 5" and q: "rws h 4 = []" and t: "rws h 3 = []"
    and p: "rws h 2 \<noteq> []"
  shows "eval5 h = evaluate h"
proof -
  note nfs = grouped_no_flush_straight[OF v len disjI2[OF disjI2[OF p]]]
  have sum: "2 * length (rws h 2) + length (rws h 1) = 5" using group_sizes[OF v] len q t by simp
  have "length (rws h 2) \<noteq> 0" using p by simp
  then have "(length (rws h 2) = 1 \<and> length (rws h 1) = 3)
      \<or> (length (rws h 2) = 2 \<and> length (rws h 1) = 1)"
    using sum by presburger
  then consider "length (rws h 2) = 1" "length (rws h 1) = 3"
    | "length (rws h 2) = 2" "length (rws h 1) = 1"
    by blast
  then show ?thesis
  proof cases
    case 1
    from list1[OF 1(1)] obtain a where P: "rws h 2 = [a]" by blast
    from list3[OF 1(2)] obtain b c d where S: "rws h 1 = [b, c, d]" by blast
    have "\<forall>c\<in>set h. (r c \<noteq> a) = (cntRank h (r c) = 1)" using cnt1_iff[OF v] q t P by simp
    from singles_kickers[OF v this]
    have sd: "sortDesc (map r (filter (\<lambda>c. r c \<noteq> a) h)) = [b, c, d]" using S by simp
    have k: "topNDesc (map r (filter (\<lambda>c. r c \<noteq> a) h)) 3 = [b, c, d]"
      by (simp add: topNDesc_def sd)
    have bl: "blocks h = [(a, 2), (b, 1), (c, 1), (d, 1)]" by (simp add: blocks_def q t P S)
    have "evaluate h = [Some 1, Some a, Some b, Some c, Some d]"
      unfolding evaluate5_form[OF v len] nfs q t P nth_Cons_0 k by simp
    moreover have "eval5 h = [Some 1, Some a, Some b, Some c, Some d]"
      unfolding eval5_form[OF v] nfs bl by simp
    ultimately show ?thesis by simp
  next
    case 2
    from list2[OF 2(1)] obtain a b where P: "rws h 2 = [a, b]" by blast
    from list1[OF 2(2)] obtain c where S: "rws h 1 = [c]" by blast
    have "\<forall>c\<in>set h. (r c \<noteq> a \<and> r c \<noteq> b) = (cntRank h (r c) = 1)"
      using cnt1_iff[OF v] q t P by simp
    from singles_kickers[OF v this]
    have sd: "sortDesc (map r (filter (\<lambda>c. r c \<noteq> a \<and> r c \<noteq> b) h)) = [c]" using S by simp
    have k: "atNum (topNDesc (map r (filter (\<lambda>c. r c \<noteq> a \<and> r c \<noteq> b) h)) 1) 0 = Some c"
      by (simp add: topNDesc_def sd atNum_def)
    have bl: "blocks h = [(a, 2), (b, 2), (c, 1)]" by (simp add: blocks_def q t P S)
    have n: "[a, b] ! 0 = a" "[a, b] ! 1 = b" by simp_all
    have "evaluate h = [Some 2, Some a, Some b, Some c]"
      unfolding evaluate5_form[OF v len] nfs q t P n k by simp
    moreover have "eval5 h = [Some 2, Some a, Some b, Some c]"
      unfolding eval5_form[OF v] nfs bl by simp
    ultimately show ?thesis by simp
  qed
qed

lemma five_card_agree:
  assumes "validHand h" and "length h = 5"
  shows "eval5 h = evaluate h"
proof (cases "rws h 4 = []")
  case False
  with assms show ?thesis by (intro agree_quads)
next
  case q: True
  show ?thesis
  proof (cases "rws h 3 = []")
    case False
    with assms q show ?thesis by (intro agree_trips)
  next
    case t: True
    show ?thesis
    proof (cases "rws h 2 = []")
      case False
      with assms q t show ?thesis by (intro agree_pairs)
    next
      case True
      with assms q t show ?thesis by (intro agree_singles)
    qed
  qed
qed

subsection \<open>The maximum over the five-card hands\<close>

lemma filter_in_subseqs: "filter P xs \<in> set (subseqs xs)"
  by (induction xs) (auto simp: Let_def)

lemma subseqs_subset: "ys \<in> set (subseqs xs) \<Longrightarrow> set ys \<subseteq> set xs"
  using subseqs_powset[of xs] by blast

lemma five_hand_valid:
  assumes "validHand cs" and "h \<in> set (fiveCardHands cs)"
  shows "validHand h" and "length h = 5" and "set h \<subseteq> set cs"
proof -
  have mem: "h \<in> set (subseqs cs)" and len: "length h = 5"
    using assms(2) by (simp_all add: fiveCardHands_def)
  show "length h = 5" by (rule len)
  show sub: "set h \<subseteq> set cs" using mem by (rule subseqs_subset)
  have "distinct h" using mem validHand_distinct[OF assms(1)] by (rule subseqs_distinctD)
  then show "validHand h" using sub assms(1) by (auto simp: validHand_def list_all_iff)
qed

lemma achieves_strength:
  assumes val: "\<forall>k\<in>r ` H. 2 \<le> k \<and> k \<le> 14" and a: "achieves H u"
  shows "isStrengthValue u"
proof -
  have sh: "2 \<le> x \<and> x \<le> 14" if "x \<in> straightHighs (aceLow A)" "A \<subseteq> r ` H" for x A
  proof -
    have v1: "\<forall>k\<in>A. 1 \<le> k" using val that(2) by fastforce
    have "5 \<le> x" using v1 that(1) by (rule straightHighs_ge5)
    moreover have "x \<in> aceLow A" using that(1) straightHighs_subset by blast
    then have "x \<in> insert 1 A" by (auto simp: aceLow_def split: if_splits)
    ultimately have "x \<in> A" by auto
    then show ?thesis using val that(2) by blast
  qed
  have nR_rank: "2 \<le> k \<and> k \<le> 14" if "1 \<le> nR H k" for k
  proof -
    have "{c \<in> H. r c = k} \<noteq> {}" using that unfolding nR_def by force
    then show ?thesis using val by blast
  qed
  have entries: "list_all isRankEntry (map Some ks)" if "set ks \<subseteq> r ` H" for ks
    using that val by (auto simp: list_all_iff isRankEntry_def)
  from a show ?thesis
  proof cases
    case (straightFlush x t)
    then show ?thesis using sh[of x "suitRanks H t"] suitRanks_subset[of H t]
      by (simp add: isStrengthValue_def isRankEntry_def)
  next
    case (quads q k)
    then show ?thesis using nR_rank[of q] val
      by (auto simp: isStrengthValue_def isRankEntry_def)
  next
    case (fullHouse t p)
    then show ?thesis using nR_rank[of t] nR_rank[of p]
      by (simp add: isStrengthValue_def isRankEntry_def)
  next
    case (flush ks t)
    then show ?thesis using entries[of ks] suitRanks_subset[of H t]
      by (auto simp: isStrengthValue_def)
  next
    case (straight x)
    then show ?thesis using sh[of x "r ` H"]
      by (simp add: isStrengthValue_def isRankEntry_def)
  next
    case (trips t ks)
    then show ?thesis using entries[of ks] nR_rank[of t]
      by (auto simp: isStrengthValue_def isRankEntry_def)
  next
    case (twoPair p1 p2 k)
    then show ?thesis using nR_rank[of p1] nR_rank[of p2] val
      by (auto simp: isStrengthValue_def isRankEntry_def)
  next
    case (pair p ks)
    then show ?thesis using entries[of ks] nR_rank[of p]
      by (auto simp: isStrengthValue_def isRankEntry_def)
  next
    case (highCard ks)
    then show ?thesis using entries[of ks]
      by (auto simp: isStrengthValue_def)
  qed
qed

lemma maxTuple_top:
  assumes "mx \<in> set ts" and "\<forall>u\<in>set ts. compareRankTuples u mx \<le> 0"
    and "\<forall>u\<in>set ts. compareRankTuples u mx = 0 \<longrightarrow> u = mx"
  shows "maxTuple ts = mx"
proof -
  let ?step = "\<lambda>best u. if compareRankTuples u best > 0 then u else best"
  have gt: "compareRankTuples mx b > 0" if "b \<in> set ts" "b \<noteq> mx" for b
  proof -
    have "compareRankTuples b mx \<le> 0" "compareRankTuples b mx \<noteq> 0" using assms(2,3) that by auto
    then show ?thesis using compare_swap[of mx b] by simp
  qed
  have fold: "foldl ?step b us = mx"
    if "b \<in> set ts" "set us \<subseteq> set ts" "mx \<in> set (b # us)" for b us
    using that
  proof (induction us arbitrary: b)
    case Nil
    then show ?case by simp
  next
    case (Cons u us)
    have uin: "u \<in> set ts" and sub: "set us \<subseteq> set ts" using Cons.prems(2) by auto
    show ?case
    proof (cases "b = mx")
      case True
      have "\<not> compareRankTuples u mx > 0" using assms(2) uin by fastforce
      then have "?step b u = mx" using True by simp
      then show ?thesis using Cons.IH[of mx] sub assms(1) by simp
    next
      case False
      show ?thesis
      proof (cases "u = mx")
        case True
        then have "?step b u = mx" using gt[OF Cons.prems(1) False] by simp
        then show ?thesis using Cons.IH[of mx] sub assms(1) by simp
      next
        case ne: False
        then have mxin: "mx \<in> set us" using Cons.prems(3) False by auto
        have "?step b u \<in> set ts" using uin Cons.prems(1) by simp
        from Cons.IH[OF this sub] mxin show ?thesis by simp
      qed
    qed
  qed
  from assms(1) obtain t ts' where ts: "ts = t # ts'" by (cases ts) auto
  have "foldl ?step t ts' = mx"
    using assms(1) ts by (intro fold) auto
  then show ?thesis using ts by simp
qed

subsection \<open>The evaluator returns the best five-card hand\<close>

lemma hand_ranks_valid: "validHand cs \<Longrightarrow> \<forall>k\<in>r ` set cs. 2 \<le> k \<and> k \<le> 14"
  using validHand_rank by blast

lemma five_hand_below:
  assumes v: "validHand cs" and len: "5 \<le> length cs" "length cs \<le> 7"
    and h: "h \<in> set (fiveCardHands cs)"
  shows "compareRankTuples (eval5 h) (evaluate cs) \<le> 0" and "isStrengthValue (eval5 h)"
proof -
  note hv = five_hand_valid[OF v h]
  have e: "eval5 h = evaluate h" using hv(1,2) by (rule five_card_agree)
  have a: "achieves (set h) (evaluate h)" using hv(1,2) by (intro evaluate_achieves) simp_all
  then have "achieves (set cs) (evaluate h)" using hv(3) by (intro achieves_mono[of "set cs" "set h"]) simp_all
  then show "compareRankTuples (eval5 h) (evaluate cs) \<le> 0"
    unfolding e using v len by (intro evaluate_dominates)
  show "isStrengthValue (eval5 h)"
    unfolding e using hand_ranks_valid[OF hv(1)] a by (rule achieves_strength)
qed

lemma five_hand_reaches:
  assumes v: "validHand cs" and len: "5 \<le> length cs" "length cs \<le> 7"
  shows "evaluate cs \<in> set (map eval5 (fiveCardHands cs))"
proof -
  have d: "distinct cs" using v by (rule validHand_distinct)
  have a: "achieves (set cs) (evaluate cs)" using v len(1) by (rule evaluate_achieves)
  from realise[OF _ hand_ranks_valid[OF v] a]
  obtain H' where H': "H' \<subseteq> set cs \<and> card H' = 5 \<and> achieves H' (evaluate cs)" by auto
  let ?h = "filter (\<lambda>c. c \<in> H') cs"
  have seth: "set ?h = H'" using H' by auto
  have dh: "distinct ?h" using d by simp
  have lenh: "length ?h = 5" using distinct_card[OF dh] seth H' by simp
  have hin: "?h \<in> set (fiveCardHands cs)"
    using lenh filter_in_subseqs[of "\<lambda>c. c \<in> H'" cs] by (simp add: fiveCardHands_def)
  note hv = five_hand_valid[OF v hin]
  have e: "eval5 ?h = evaluate ?h" using hv(1,2) by (rule five_card_agree)
  have "achieves (set ?h) (evaluate cs)" using H' seth by simp
  then have up: "compareRankTuples (evaluate cs) (evaluate ?h) \<le> 0"
    using hv(1,2) by (intro evaluate_dominates) simp_all
  have down: "compareRankTuples (evaluate ?h) (evaluate cs) \<le> 0"
    using five_hand_below(1)[OF v len hin] e by simp
  have zero: "compareRankTuples (evaluate ?h) (evaluate cs) = 0"
    using up down compare_swap[of "evaluate ?h" "evaluate cs"] by simp
  have s1: "isStrengthValue (evaluate ?h)" using five_hand_below(2)[OF v len hin] e by simp
  have s2: "isStrengthValue (evaluate cs)" using hand_ranks_valid[OF v] a by (rule achieves_strength)
  have "evaluate ?h = evaluate cs" using compare_zero_strength[OF s1 s2] zero by simp
  then have "eval5 ?h = evaluate cs" using e by simp
  then show ?thesis using hin by force
qed

text \<open>
  Claim C1. For five, six or seven pairwise different cards of the deck, \<^verbatim>\<open>evaluate\<close>
  returns exactly the strength value that the reference computes: the maximum, under the
  comparator, of the values that the five-card evaluator gives to the five-card subsets.
  The category of the result is in 0..8.
\<close>

theorem evaluate_best_of_five:
  assumes "validHand cs" and "5 \<le> length cs" and "length cs \<le> 7"
  shows "evaluate cs = bestOfFive cs
    \<and> (\<exists>cat rest. evaluate cs = Some cat # rest \<and> 0 \<le> cat \<and> cat \<le> 8)"
proof
  have a: "achieves (set cs) (evaluate cs)" using assms(1,2) by (rule evaluate_achieves)
  have s2: "isStrengthValue (evaluate cs)"
    using hand_ranks_valid[OF assms(1)] a by (rule achieves_strength)
  let ?ts = "map eval5 (fiveCardHands cs)"
  have 1: "evaluate cs \<in> set ?ts" using assms by (rule five_hand_reaches)
  have 2: "\<forall>u\<in>set ?ts. compareRankTuples u (evaluate cs) \<le> 0"
    using five_hand_below(1)[OF assms] by auto
  have 3: "\<forall>u\<in>set ?ts. compareRankTuples u (evaluate cs) = 0 \<longrightarrow> u = evaluate cs"
  proof (intro ballI impI)
    fix u assume u: "u \<in> set ?ts" and z: "compareRankTuples u (evaluate cs) = 0"
    from u obtain h where "h \<in> set (fiveCardHands cs)" "u = eval5 h" by auto
    then have "isStrengthValue u" using five_hand_below(2)[OF assms] by simp
    then show "u = evaluate cs" using compare_zero_strength[OF _ s2] z by simp
  qed
  show "evaluate cs = bestOfFive cs"
    unfolding bestOfFive_def using maxTuple_top[OF 1 2 3] by simp
  show "\<exists>cat rest. evaluate cs = Some cat # rest \<and> 0 \<le> cat \<and> cat \<le> 8"
    by (rule evaluate_category)
qed

theorem evaluate_best_of_five_witness:
  "validHand [\<lparr>r = 14, s = ''h''\<rparr>, \<lparr>r = 14, s = ''d''\<rparr>, \<lparr>r = 13, s = ''c''\<rparr>, \<lparr>r = 7, s = ''h''\<rparr>,
      \<lparr>r = 2, s = ''d''\<rparr>, \<lparr>r = 2, s = ''s''\<rparr>, \<lparr>r = 13, s = ''s''\<rparr>]
   \<and> 5 \<le> length [\<lparr>r = 14, s = ''h''\<rparr>, \<lparr>r = 14, s = ''d''\<rparr>, \<lparr>r = 13, s = ''c''\<rparr>, \<lparr>r = 7, s = ''h''\<rparr>,
      \<lparr>r = 2, s = ''d''\<rparr>, \<lparr>r = 2, s = ''s''\<rparr>, \<lparr>r = 13, s = ''s''\<rparr>]
   \<and> length [\<lparr>r = 14, s = ''h''\<rparr>, \<lparr>r = 14, s = ''d''\<rparr>, \<lparr>r = 13, s = ''c''\<rparr>, \<lparr>r = 7, s = ''h''\<rparr>,
      \<lparr>r = 2, s = ''d''\<rparr>, \<lparr>r = 2, s = ''s''\<rparr>, \<lparr>r = 13, s = ''s''\<rparr>] \<le> 7
   \<and> bestOfFive [\<lparr>r = 14, s = ''h''\<rparr>, \<lparr>r = 14, s = ''d''\<rparr>, \<lparr>r = 13, s = ''c''\<rparr>, \<lparr>r = 7, s = ''h''\<rparr>,
      \<lparr>r = 2, s = ''d''\<rparr>, \<lparr>r = 2, s = ''s''\<rparr>, \<lparr>r = 13, s = ''s''\<rparr>]
     = [Some 2, Some 14, Some 13, Some 7]"
proof -
  let ?cs = "[\<lparr>r = 14, s = ''h''\<rparr>, \<lparr>r = 14, s = ''d''\<rparr>, \<lparr>r = 13, s = ''c''\<rparr>, \<lparr>r = 7, s = ''h''\<rparr>,
      \<lparr>r = 2, s = ''d''\<rparr>, \<lparr>r = 2, s = ''s''\<rparr>, \<lparr>r = 13, s = ''s''\<rparr>]"
  have v: "validHand ?cs" by code_simp
  have l: "5 \<le> length ?cs" "length ?cs \<le> 7" by simp_all
  have e: "evaluate ?cs = [Some 2, Some 14, Some 13, Some 7]" by code_simp
  from evaluate_best_of_five[OF v l] e v l show ?thesis by simp
qed

end
